theory Spec2Isabelle
  imports Complex_Main "HOL-Library.AList" "HOL-Library.Multiset" "HOL-Library.Product_Lexorder"
begin

section \<open>Values read from the JSON files\<close>

text \<open>
  \<^verbatim>\<open>json.load\<close> gives \<^verbatim>\<open>None\<close>, booleans, ints, floats, strings, lists and dicts.
  A dict is the list of its items in insertion order, keys pairwise distinct. The content of
  a number is never read by \<^verbatim>\<open>orderbook_local.py\<close>; only its type name is. Texts are
  ASCII: the non-ASCII digits and blanks that Python's \<^verbatim>\<open>Decimal\<close> also accepts are outside
  the model.
\<close>

datatype json =
    JNull
  | JBool bool
  | JInt int
  | JFloat rat
  | JStr string
  | JList "json list"
  | JObj "(string \<times> json) list"

text \<open>\<^verbatim>\<open>type(x).__name__\<close>\<close>

fun type_name :: "json \<Rightarrow> string" where
  "type_name JNull = ''NoneType''"
| "type_name (JBool _) = ''bool''"
| "type_name (JInt _) = ''int''"
| "type_name (JFloat _) = ''float''"
| "type_name (JStr _) = ''str''"
| "type_name (JList _) = ''list''"
| "type_name (JObj _) = ''dict''"

text \<open>\<^verbatim>\<open>d.get(k, default)\<close> on a dict.\<close>

definition dict_get :: "(string \<times> 'v) list \<Rightarrow> string \<Rightarrow> 'v \<Rightarrow> 'v" where
  "dict_get d k dflt = (case map_of d k of None \<Rightarrow> dflt | Some v \<Rightarrow> v)"

section \<open>Python's \<^verbatim>\<open>Decimal\<close>, as far as the script uses it\<close>

text \<open>
  The script constructs decimals from text, compares a quantity with zero (\<^verbatim>\<open>qd < 0\<close>,
  \<^verbatim>\<open>Decimal(q) == 0\<close>) and sorts prices by their decimal value. A decimal is a sign, a
  coefficient and an exponent, an infinity, or a NaN (quiet or signalling); the diagnostic
  digits of a NaN play no part here. The constructor is the one of the \<^verbatim>\<open>decimal\<close>
  module: blanks stripped at both ends, underscores dropped, an optional sign, then a
  number with at least one digit and an optional exponent, or \<^verbatim>\<open>Inf\<close>, \<^verbatim>\<open>Infinity\<close>,
  \<^verbatim>\<open>NaN\<close>, \<^verbatim>\<open>sNaN\<close> in any letter case. Exponents are unbounded integers.
\<close>

datatype decimal =
    Finite bool nat int
  | Infinite bool
  | NaN bool

definition is_space :: "char \<Rightarrow> bool" where
  "is_space c = (c \<in> set [CHR 0x09, CHR 0x0A, CHR 0x0B, CHR 0x0C, CHR 0x0D,
                            CHR 0x1C, CHR 0x1D, CHR 0x1E, CHR 0x1F, CHR 0x20])"

definition strip :: "string \<Rightarrow> string" where
  "strip s = rev (dropWhile is_space (rev (dropWhile is_space s)))"

definition is_digit :: "char \<Rightarrow> bool" where
  "is_digit c = (c \<in> set ''0123456789'')"

definition digit_val :: "char \<Rightarrow> nat" where
  "digit_val c = of_char c - 48"

definition int_of_digits :: "string \<Rightarrow> nat" where
  "int_of_digits ds = foldl (\<lambda>n c. 10 * n + digit_val c) 0 ds"

definition lower :: "char \<Rightarrow> char" where
  "lower c = (case map_of (zip ''ABCDEFGHIJKLMNOPQRSTUVWXYZ'' ''abcdefghijklmnopqrstuvwxyz'') c of
                None \<Rightarrow> c
              | Some l \<Rightarrow> l)"

text \<open>The exponent part: nothing, or \<^verbatim>\<open>E\<close>, an optional sign and at least one digit.\<close>

definition parse_exponent :: "string \<Rightarrow> int option" where
  "parse_exponent r =
     (case r of
        [] \<Rightarrow> Some 0
      | c # t \<Rightarrow>
          if c \<noteq> CHR ''e'' then None
          else (let (neg, ds) = (case t of
                                   [] \<Rightarrow> (False, t)
                                 | s # u \<Rightarrow> if s = CHR ''-'' then (True, u)
                                            else if s = CHR ''+'' then (False, u)
                                            else (False, t))
                in if ds = [] \<or> \<not> list_all is_digit ds then None
                   else Some (if neg then - int (int_of_digits ds) else int (int_of_digits ds))))"

definition parse_number :: "bool \<Rightarrow> string \<Rightarrow> decimal option" where
  "parse_number neg l =
     (let ip = takeWhile is_digit l;
          r1 = dropWhile is_digit l;
          (fp, r2) = (case r1 of
                        [] \<Rightarrow> ([], r1)
                      | c # t \<Rightarrow> if c = CHR ''.'' then (takeWhile is_digit t, dropWhile is_digit t)
                                 else ([], r1))
      in if ip = [] \<and> fp = [] then None
         else (case parse_exponent r2 of
                 None \<Rightarrow> None
               | Some e \<Rightarrow> Some (Finite neg (int_of_digits (ip @ fp)) (e - int (length fp)))))"

definition is_nan_text :: "string \<Rightarrow> string \<Rightarrow> bool" where
  "is_nan_text name l = (take (length name) l = name \<and> list_all is_digit (drop (length name) l))"

definition Decimal :: "string \<Rightarrow> decimal option" where
  "Decimal s =
     (let t = filter (\<lambda>c. c \<noteq> CHR ''_'') (strip s);
          (neg, u) = (case t of
                        [] \<Rightarrow> (False, t)
                      | c # r \<Rightarrow> if c = CHR ''-'' then (True, r)
                                 else if c = CHR ''+'' then (False, r)
                                 else (False, t));
          l = map lower u
      in if l = ''inf'' \<or> l = ''infinity'' then Some (Infinite neg)
         else if is_nan_text ''nan'' l then Some (NaN False)
         else if is_nan_text ''snan'' l then Some (NaN True)
         else parse_number neg l)"

text \<open>
  \<^verbatim>\<open>qd < 0\<close> and \<^verbatim>\<open>Decimal(q) == 0\<close>. An ordering comparison with any NaN raises
  \<^verbatim>\<open>InvalidOperation\<close>; an equality test raises it for a signalling NaN only and is false
  for a quiet one. Minus zero is zero.
\<close>

datatype message =
    MustBeList string string
  | NotAPair string nat
  | NotStrings string nat
  | InvalidDecimal string nat json
  | NegativeQuantity string nat json
  | SnapshotNotObject nat
  | SnapshotShape
  | UpdatesNotList
  | UpdateNotObject nat
  | PayloadNotObject nat
  | MissingArrays nat

datatype error =
    ValueError message
  | InvalidOperation
  | KeyError string
  | TypeError
  | SystemExit string

fun lt_zero :: "decimal \<Rightarrow> error + bool" where
  "lt_zero (Finite s c e) = Inr (s \<and> c \<noteq> 0)"
| "lt_zero (Infinite s) = Inr s"
| "lt_zero (NaN _) = Inl InvalidOperation"

fun eq_zero :: "decimal \<Rightarrow> error + bool" where
  "eq_zero (Finite s c e) = Inr (c = 0)"
| "eq_zero (Infinite s) = Inr False"
| "eq_zero (NaN signalling) = (if signalling then Inl InvalidOperation else Inr False)"

text \<open>
  The position of a decimal in the order \<^verbatim>\<open><\<close> of \<^verbatim>\<open>Decimal\<close>: minus infinity, the
  finite values by their exact rational value, plus infinity. A NaN has no position; the
  value given to it is never compared (see \<open>sort_by_Decimal\<close>).
\<close>

fun is_nan :: "decimal \<Rightarrow> bool" where
  "is_nan (NaN _) = True"
| "is_nan _ = False"

fun position :: "decimal \<Rightarrow> int \<times> rat" where
  "position (Finite s c e) =
     (0, (if s then - 1 else 1) * of_nat c * (if 0 \<le> e then 10 ^ nat e else 1 / 10 ^ nat (- e)))"
| "position (Infinite s) = (if s then - 1 else 1, 0)"
| "position (NaN _) = (0, 0)"

text \<open>
  \<^verbatim>\<open>sorted(xs, key=lambda x: Decimal(f(x)), reverse=r)\<close> and \<^verbatim>\<open>xs.sort(...)\<close>: the key of
  every element is computed first (the constructor raises \<^verbatim>\<open>InvalidOperation\<close> on text
  that is no decimal); then the keys are compared with \<^verbatim>\<open><\<close>, and with two elements or
  more each key takes part in a comparison, which raises on a NaN. The sort is stable, also
  when reversed.
\<close>

fun decimal_keys :: "('a \<Rightarrow> string) \<Rightarrow> 'a list \<Rightarrow> error + (decimal \<times> 'a) list" where
  "decimal_keys f [] = Inr []"
| "decimal_keys f (x # xs) =
     (case Decimal (f x) of
        None \<Rightarrow> Inl InvalidOperation
      | Some d \<Rightarrow> (case decimal_keys f xs of
                     Inl e \<Rightarrow> Inl e
                   | Inr ks \<Rightarrow> Inr ((d, x) # ks)))"

definition sort_by_Decimal :: "('a \<Rightarrow> string) \<Rightarrow> bool \<Rightarrow> 'a list \<Rightarrow> error + 'a list" where
  "sort_by_Decimal f reverse xs =
     (case decimal_keys f xs of
        Inl e \<Rightarrow> Inl e
      | Inr ks \<Rightarrow>
          if 2 \<le> length ks \<and> list_ex (\<lambda>k. is_nan (fst k)) ks then Inl InvalidOperation
          else Inr (map snd (if reverse then rev (sort_key (\<lambda>k. position (fst k)) (rev ks))
                             else sort_key (\<lambda>k. position (fst k)) ks)))"

section \<open>Parsing\<close>

text \<open>The body of the loop of \<^verbatim>\<open>parse_levels\<close>: one row, at index \<open>i\<close>.\<close>

definition parse_level :: "string \<Rightarrow> nat \<Rightarrow> json \<Rightarrow> error + (string \<times> string)" where
  "parse_level label i row =
     (case row of
        JList [pj, qj] \<Rightarrow>
          (case (pj, qj) of
             (JStr p, JStr q) \<Rightarrow>
               (case Decimal p of
                  None \<Rightarrow> Inl (ValueError (InvalidDecimal label i row))
                | Some _ \<Rightarrow>
                    (case Decimal q of
                       None \<Rightarrow> Inl (ValueError (InvalidDecimal label i row))
                     | Some qd \<Rightarrow>
                         (case lt_zero qd of
                            Inl e \<Rightarrow> Inl e
                          | Inr neg \<Rightarrow> if neg then Inl (ValueError (NegativeQuantity label i row))
                                       else Inr (p, q))))
           | _ \<Rightarrow> Inl (ValueError (NotStrings label i)))
      | _ \<Rightarrow> Inl (ValueError (NotAPair label i)))"

fun parse_rows :: "string \<Rightarrow> nat \<Rightarrow> json list \<Rightarrow> error + (string \<times> string) list" where
  "parse_rows label i [] = Inr []"
| "parse_rows label i (row # rows) =
     (case parse_level label i row of
        Inl e \<Rightarrow> Inl e
      | Inr pq \<Rightarrow> (case parse_rows label (Suc i) rows of
                     Inl e \<Rightarrow> Inl e
                   | Inr out \<Rightarrow> Inr (pq # out)))"

definition parse_levels :: "json \<Rightarrow> string \<Rightarrow> error + (string \<times> string) list" where
  "parse_levels levels label =
     (case levels of
        JNull \<Rightarrow> Inr []
      | JList rows \<Rightarrow> parse_rows label 0 rows
      | _ \<Rightarrow> Inl (ValueError (MustBeList label (type_name levels))))"

text \<open>\<^verbatim>\<open>iter_snapshots\<close>, consumed to its end as \<^verbatim>\<open>main\<close> does.\<close>

fun snapshot_items :: "nat \<Rightarrow> json list \<Rightarrow> error + (string \<times> json) list list" where
  "snapshot_items i [] = Inr []"
| "snapshot_items i (item # items) =
     (case item of
        JObj d \<Rightarrow> (case snapshot_items (Suc i) items of
                     Inl e \<Rightarrow> Inl e
                   | Inr ds \<Rightarrow> Inr (d # ds))
      | _ \<Rightarrow> Inl (ValueError (SnapshotNotObject i)))"

definition iter_snapshots :: "json \<Rightarrow> error + (string \<times> json) list list" where
  "iter_snapshots obj =
     (case obj of
        JObj d \<Rightarrow> if map_of d ''asks'' \<noteq> None \<or> map_of d ''bids'' \<noteq> None then Inr [d]
                  else Inl (ValueError SnapshotShape)
      | JList items \<Rightarrow> snapshot_items 0 items
      | _ \<Rightarrow> Inl (ValueError SnapshotShape))"

text \<open>
  One step of the generator \<^verbatim>\<open>iter_depth_events\<close>: the item at index \<open>i\<close> of the list,
  normalised to the dict \<^verbatim>\<open>{"a": a, "b": b}\<close>.
\<close>

definition depth_event :: "nat \<Rightarrow> json \<Rightarrow> error + (string \<times> json) list" where
  "depth_event i item =
     (case item of
        JObj d \<Rightarrow>
          (case dict_get d ''data'' item of
             JObj payload \<Rightarrow>
               (let a = dict_get payload ''a'' (JList []);
                    b = dict_get payload ''b'' (JList [])
                in (case (a, b) of
                      (JList _, JList _) \<Rightarrow> Inr [(''a'', a), (''b'', b)]
                    | _ \<Rightarrow> Inl (ValueError (MissingArrays i))))
           | _ \<Rightarrow> Inl (ValueError (PayloadNotObject i)))
      | _ \<Rightarrow> Inl (ValueError (UpdateNotObject i)))"

section \<open>Book operations\<close>

text \<open>
  A book is \<^verbatim>\<open>{"ask": {price_str: qty_str}, "bid": {price_str: qty_str}}\<close>. Each side is
  a Python dict: its items in insertion order, keyed by the price text. Storing under a key
  already present keeps its place (\<open>AList.update\<close>), a new key goes to the end, and
  \<^verbatim>\<open>pop(p, None)\<close> drops the key if present (\<open>AList.delete\<close>).
\<close>

record book =
  ask :: "(string \<times> string) list"
  bid :: "(string \<times> string) list"

datatype side = Ask | Bid

fun book_side :: "book \<Rightarrow> side \<Rightarrow> (string \<times> string) list" where
  "book_side b Ask = ask b"
| "book_side b Bid = bid b"

definition new_empty_book :: book where
  "new_empty_book = \<lparr>ask = [], bid = []\<rparr>"

definition book_from_snapshot :: "(string \<times> json) list \<Rightarrow> error + book" where
  "book_from_snapshot snap =
     (case parse_levels (dict_get snap ''asks'' (JList [])) ''asks'' of
        Inl e \<Rightarrow> Inl e
      | Inr asks \<Rightarrow>
          (case parse_levels (dict_get snap ''bids'' (JList [])) ''bids'' of
             Inl e \<Rightarrow> Inl e
           | Inr bids \<Rightarrow>
               Inr \<lparr>ask = foldl (\<lambda>d (p, q). AList.update p q d) (ask new_empty_book) asks,
                    bid = foldl (\<lambda>d (p, q). AList.update p q d) (bid new_empty_book) bids\<rparr>))"

text \<open>
  One of the two loops of \<^verbatim>\<open>apply_event\<close> over the parsed levels, on the dict of one
  side. It returns the dict as the loop leaves it and the exception that stopped it, if any.
\<close>

fun apply_levels :: "(string \<times> string) list \<Rightarrow> (string \<times> string) list
    \<Rightarrow> (string \<times> string) list \<times> error option" where
  "apply_levels d [] = (d, None)"
| "apply_levels d ((p, q) # rest) =
     (case Decimal q of
        None \<Rightarrow> (d, Some InvalidOperation)
      | Some qd \<Rightarrow>
          (case eq_zero qd of
             Inl e \<Rightarrow> (d, Some e)
           | Inr z \<Rightarrow> if z then apply_levels (AList.delete p d) rest
                      else apply_levels (AList.update p q d) rest))"

text \<open>
  \<^verbatim>\<open>apply_event\<close> mutates the book in place: the result is the book as the call leaves
  it, with the exception raised, if any. \<^verbatim>\<open>event.get("b")\<close> is \<^verbatim>\<open>None\<close> for a missing key.
\<close>

definition apply_event :: "book \<Rightarrow> (string \<times> json) list \<Rightarrow> book \<times> error option" where
  "apply_event book event =
     (case parse_levels (dict_get event ''b'' JNull) ''bids'' of
        Inl e \<Rightarrow> (book, Some e)
      | Inr bs \<Rightarrow>
          (case apply_levels (bid book) bs of
             (bd, Some e) \<Rightarrow> (book\<lparr>bid := bd\<rparr>, Some e)
           | (bd, None) \<Rightarrow>
               (case parse_levels (dict_get event ''a'' JNull) ''asks'' of
                  Inl e \<Rightarrow> (book\<lparr>bid := bd\<rparr>, Some e)
                | Inr as \<Rightarrow>
                    (case apply_levels (ask book) as of
                       (ad, err) \<Rightarrow> (book\<lparr>bid := bd, ask := ad\<rparr>, err)))))"

text \<open>\<^verbatim>\<open>side_diff\<close>, the local function of \<^verbatim>\<open>generate_revert_update\<close>.\<close>

definition side_diff :: "book \<Rightarrow> book \<Rightarrow> string \<Rightarrow> side \<Rightarrow> error + (string \<times> string) list" where
  "side_diff current_book target_book zero_fmt side =
     (let cur = book_side current_book side;
          tgt = book_side target_book side;
          changes = concat (map (\<lambda>(p, q_cur).
                       (case map_of tgt p of
                          None \<Rightarrow> [(p, zero_fmt)]
                        | Some q_tgt \<Rightarrow> if q_tgt \<noteq> q_cur then [(p, q_tgt)] else [])) cur);
          additions = filter (\<lambda>(p, q_tgt). map_of cur p = None) tgt
      in sort_by_Decimal fst (side \<noteq> Ask) (changes @ additions))"

definition level_json :: "string \<times> string \<Rightarrow> json" where
  "level_json pq = JList [JStr (fst pq), JStr (snd pq)]"

definition generate_revert_update :: "book \<Rightarrow> book \<Rightarrow> string \<Rightarrow> error + json" where
  "generate_revert_update current_book target_book zero_fmt =
     (case side_diff current_book target_book zero_fmt Bid of
        Inl e \<Rightarrow> Inl e
      | Inr b \<Rightarrow>
          (case side_diff current_book target_book zero_fmt Ask of
             Inl e \<Rightarrow> Inl e
           | Inr a \<Rightarrow>
               Inr (JObj [(''data'', JObj [(''e'', JStr ''depthUpdate''),
                                           (''b'', JList (map level_json b)),
                                           (''a'', JList (map level_json a))])])))"

text \<open>\<^verbatim>\<open>[(p, book_side[p]) for p in prices]\<close>; a missing key would raise \<^verbatim>\<open>KeyError\<close>.\<close>

fun lookup_all :: "(string \<times> string) list \<Rightarrow> string list \<Rightarrow> error + (string \<times> string) list" where
  "lookup_all d [] = Inr []"
| "lookup_all d (p # ps) =
     (case map_of d p of
        None \<Rightarrow> Inl (KeyError p)
      | Some q \<Rightarrow> (case lookup_all d ps of
                     Inl e \<Rightarrow> Inl e
                   | Inr r \<Rightarrow> Inr ((p, q) # r)))"

definition sorted_side :: "(string \<times> string) list \<Rightarrow> side \<Rightarrow> error + (string \<times> string) list" where
  "sorted_side d side =
     (case sort_by_Decimal (\<lambda>s. s) (side \<noteq> Ask) (map fst d) of
        Inl e \<Rightarrow> Inl e
      | Inr prices \<Rightarrow> lookup_all d prices)"

record levels =
  asks :: "(string \<times> string) list"
  bids :: "(string \<times> string) list"

definition book_to_levels :: "book \<Rightarrow> error + levels" where
  "book_to_levels b =
     (case sorted_side (ask b) Ask of
        Inl e \<Rightarrow> Inl e
      | Inr a \<Rightarrow> (case sorted_side (bid b) Bid of
                    Inl e \<Rightarrow> Inl e
                  | Inr bs \<Rightarrow> Inr \<lparr>asks = a, bids = bs\<rparr>))"

section \<open>The command line program\<close>

text \<open>
  \<^verbatim>\<open>main\<close>, after the arguments are parsed and the two files are loaded: \<open>snapshot\<close> is
  the payload of the snapshot file when \<^verbatim>\<open>--snapshot\<close> is given, \<open>updates\<close> the payload of
  the updates file, \<open>dump\<close> and \<open>save_revert\<close> the paths given, if any.
\<close>

record args =
  snapshot :: "json option"
  updates :: json
  store_every :: int
  final_only :: bool
  print_top :: int
  dump :: "string option"
  emit_revert :: bool
  save_revert :: "string option"

text \<open>What the program writes: lines on standard output and files.\<close>

datatype effect =
    PrintLine string
  | PrintJson json
  | DumpStates string "levels list"
  | DumpJson string json

text \<open>\<^verbatim>\<open># --- Build initial book ---\<close>\<close>

definition main_initial_book :: "json option \<Rightarrow> error + book" where
  "main_initial_book snapshot_payload =
     (case snapshot_payload of
        None \<Rightarrow> Inr new_empty_book
      | Some snap_payload \<Rightarrow>
          (case iter_snapshots snap_payload of
             Inl e \<Rightarrow> Inl e
           | Inr snaps \<Rightarrow>
               if snaps = [] then Inl (SystemExit ''Snapshot file contains no usable objects.'')
               else book_from_snapshot (last snaps)))"

text \<open>
  \<^verbatim>\<open># --- Apply updates ---\<close>, the loop of the \<^verbatim>\<open>--final-only\<close> branch. The generator
  is consumed one item at a time: the item at index \<open>i\<close> is normalised, then applied,
  before the next one is looked at. An exception ends the program.
\<close>

fun final_loop :: "nat \<Rightarrow> book \<Rightarrow> json list \<Rightarrow> error + book" where
  "final_loop i book [] = Inr book"
| "final_loop i book (item # items) =
     (case depth_event i item of
        Inl e \<Rightarrow> Inl e
      | Inr ev \<Rightarrow>
          (case apply_event book ev of
             (book', Some e) \<Rightarrow> Inl e
           | (book', None) \<Rightarrow> final_loop (Suc i) book' items))"

text \<open>
  The loop of the other branch. \<open>n\<close> is the counter of the source before its increment,
  which is also the index of the item in the list; \<open>states\<close> is the list appended to.
\<close>

fun stride_loop :: "int \<Rightarrow> nat \<Rightarrow> book \<Rightarrow> levels list \<Rightarrow> json list
    \<Rightarrow> error + (levels list \<times> book)" where
  "stride_loop k n book states [] = Inr (states, book)"
| "stride_loop k n book states (item # items) =
     (case depth_event n item of
        Inl e \<Rightarrow> Inl e
      | Inr ev \<Rightarrow>
          (case apply_event book ev of
             (book', Some e) \<Rightarrow> Inl e
           | (book', None) \<Rightarrow>
               if int (Suc n) mod max 1 k = 0
               then (case book_to_levels book' of
                       Inl e \<Rightarrow> Inl e
                     | Inr st \<Rightarrow> stride_loop k (Suc n) book' (states @ [st]) items)
               else stride_loop k (Suc n) book' states items))"

definition main_apply_updates :: "book \<Rightarrow> json \<Rightarrow> bool \<Rightarrow> int \<Rightarrow> error + (levels list \<times> book)" where
  "main_apply_updates initial_book upd_payload final stride =
     (let book = \<lparr>ask = ask initial_book, bid = bid initial_book\<rparr>
      in (case upd_payload of
            JList items \<Rightarrow>
              if final
              then (case final_loop 0 book items of
                      Inl e \<Rightarrow> Inl e
                    | Inr book' \<Rightarrow> (case book_to_levels book' of
                                      Inl e \<Rightarrow> Inl e
                                    | Inr st \<Rightarrow> Inr ([st], book')))
              else stride_loop stride 0 book [] items
          | _ \<Rightarrow> Inl (ValueError UpdatesNotList)))"

definition print_level :: "string \<times> string \<Rightarrow> effect" where
  "print_level pq = PrintLine (''  '' @ fst pq @ [CHR 0x09] @ snd pq)"

text \<open>The result of \<^verbatim>\<open>main\<close>: what was written, in order, and the exception raised, if any.\<close>

definition main :: "args \<Rightarrow> effect list \<times> error option" where
  "main a =
     (case main_initial_book (snapshot a) of
        Inl e \<Rightarrow> ([], Some e)
      | Inr initial_book \<Rightarrow>
          (case main_apply_updates initial_book (updates a) (final_only a) (store_every a) of
             Inl e \<Rightarrow> ([], Some e)
           | Inr (states, book) \<Rightarrow>
               (case book_to_levels book of
                  Inl e \<Rightarrow> ([], Some e)
                | Inr final \<Rightarrow>
                    (let printed =
                           (if 0 < print_top a
                            then PrintLine ''Final top bids:''
                                   # map print_level (take (nat (print_top a)) (bids final))
                                 @ PrintLine ''Final top asks:''
                                   # map print_level (take (nat (print_top a)) (asks final))
                            else []);
                         dumped = (case dump a of None \<Rightarrow> [] | Some path \<Rightarrow> [DumpStates path states])
                     in if emit_revert a \<or> save_revert a \<noteq> None
                        then (case generate_revert_update book initial_book ''0.00000000'' of
                                Inl e \<Rightarrow> (printed @ dumped, Some e)
                              | Inr revert \<Rightarrow>
                                  (printed @ dumped
                                   @ (if emit_revert a then [PrintJson revert] else [])
                                   @ (case save_revert a of None \<Rightarrow> [] | Some path \<Rightarrow> [DumpJson path revert]),
                                   None))
                        else (printed @ dumped, None)))))"

section \<open>Notions used to state the properties\<close>




fun is_obj :: "json \<Rightarrow> bool" where
  "is_obj (JObj _) = True"
| "is_obj _ = False"

fun is_list :: "json \<Rightarrow> bool" where
  "is_list (JList _) = True"
| "is_list _ = False"

text \<open>
  A level of the data model: the price text denotes a number (finite or infinite, no NaN)
  and the quantity text a number that is not negative. The quantity is nonzero in
  \<open>level_pos\<close>.
\<close>

definition level_ok :: "string \<times> string \<Rightarrow> bool" where
  "level_ok pq =
     (case Decimal (fst pq) of
        None \<Rightarrow> False
      | Some pd \<Rightarrow> \<not> is_nan pd \<and>
          (case Decimal (snd pq) of
             None \<Rightarrow> False
           | Some qd \<Rightarrow> lt_zero qd = Inr False))"

definition is_zero_text :: "string \<Rightarrow> bool" where
  "is_zero_text q = (case Decimal q of None \<Rightarrow> False | Some qd \<Rightarrow> eq_zero qd = Inr True)"

definition level_pos :: "string \<times> string \<Rightarrow> bool" where
  "level_pos pq = (level_ok pq \<and> \<not> is_zero_text (snd pq))"

text \<open>A book of the data model: each side a dict (keys distinct) of such levels.\<close>

definition side_ok :: "(string \<times> string) list \<Rightarrow> bool" where
  "side_ok d = (distinct (map fst d) \<and> list_all level_ok d)"

definition book_ok :: "book \<Rightarrow> bool" where
  "book_ok b = (side_ok (ask b) \<and> side_ok (bid b))"

text \<open>
  A valid item of the update stream: it has the expected shape, the Codec accepts every
  entry of both lists, and every entry is a level of the data model.
\<close>

definition valid_update :: "json \<Rightarrow> bool" where
  "valid_update item =
     (case depth_event 0 item of
        Inl e \<Rightarrow> False
      | Inr ev \<Rightarrow>
          (case parse_levels (dict_get ev ''b'' JNull) ''bids'' of
             Inl e \<Rightarrow> False
           | Inr bs \<Rightarrow>
               (case parse_levels (dict_get ev ''a'' JNull) ''asks'' of
                  Inl e \<Rightarrow> False
                | Inr as \<Rightarrow> list_all level_ok bs \<and> list_all level_ok as)))"

text \<open>
  What the Codec guarantees of a pair it accepts: a price the constructor accepts and a
  quantity that is a number and not negative.
\<close>

definition accepted :: "string \<times> string \<Rightarrow> bool" where
  "accepted pq =
     (Decimal (fst pq) \<noteq> None \<and>
      (case Decimal (snd pq) of None \<Rightarrow> False | Some qd \<Rightarrow> lt_zero qd = Inr False))"

text \<open>One level change on the dict of a side: zero removes, anything else stores.\<close>

definition set_level :: "(string \<times> string) list \<Rightarrow> string \<times> string \<Rightarrow> (string \<times> string) list" where
  "set_level d pq = (if is_zero_text (snd pq) then AList.delete (fst pq) d
                     else AList.update (fst pq) (snd pq) d)"

text \<open>The place of a price text in the order of decimals (of a text that is a decimal).\<close>

definition text_position :: "string \<Rightarrow> int \<times> rat" where
  "text_position p = (case Decimal p of None \<Rightarrow> (0, 0) | Some d \<Rightarrow> position d)"

text \<open>The map a dict stands for, updated by one level as \<^verbatim>\<open>apply_event\<close> does.\<close>

definition upsert :: "(string \<rightharpoonup> string) \<Rightarrow> string \<times> string \<Rightarrow> (string \<rightharpoonup> string)" where
  "upsert m pq = (if is_zero_text (snd pq) then m(fst pq := None) else m(fst pq \<mapsto> snd pq))"

text \<open>
  The entries of one side of a revert before they are sorted: the removals and changes,
  then the additions, as \<^verbatim>\<open>side_diff\<close> collects them in \<^verbatim>\<open>out\<close>.
\<close>

definition changes_of :: "(string \<times> string) list \<Rightarrow> (string \<times> string) list \<Rightarrow> string
    \<Rightarrow> (string \<times> string) list" where
  "changes_of cur tgt zero_fmt =
     concat (map (\<lambda>(p, q_cur).
        (case map_of tgt p of
           None \<Rightarrow> [(p, zero_fmt)]
         | Some q_tgt \<Rightarrow> if q_tgt \<noteq> q_cur then [(p, q_tgt)] else [])) cur)
     @ filter (\<lambda>(p, q_tgt). map_of cur p = None) tgt"

text \<open>A zero sentinel: a text the Codec accepts as a quantity, of value zero.\<close>

definition zero_ok :: "string \<Rightarrow> bool" where
  "zero_ok z = (is_zero_text z \<and> accepted (z, z))"

section \<open>The objects of the program in a store\<close>

text \<open>
  Python's dicts and lists are mutable objects reached through references, so the same
  object can be reached from two places. The store holds them: an address is an index of
  the store, allocation appends, and nothing is ever freed. A string is immutable and is a
  value. The functions below are the ones above with their objects in the store: a book is
  the address of a dict \<^verbatim>\<open>{"ask": ..., "bid": ...}\<close> of two references to the dicts of
  the sides. An object of another shape where a book is expected gives \<^verbatim>\<open>TypeError\<close>.
\<close>

datatype val = VStr string | VRef nat

datatype obj = ODict "(string \<times> val) list" | OList "val list"

type_synonym store = "obj list"

definition obj_at :: "store \<Rightarrow> nat \<Rightarrow> obj option" where
  "obj_at h a = (if a < length h then Some (h ! a) else None)"

definition alloc :: "store \<Rightarrow> obj \<Rightarrow> store \<times> nat" where
  "alloc h ob = (h @ [ob], length h)"

definition dict_obj :: "(string \<times> string) list \<Rightarrow> obj" where
  "dict_obj d = ODict (map (\<lambda>(p, q). (p, VStr q)) d)"

fun str_items :: "(string \<times> val) list \<Rightarrow> (string \<times> string) list option" where
  "str_items [] = Some []"
| "str_items ((k, VStr s) # kvs) = map_option (\<lambda>r. (k, s) # r) (str_items kvs)"
| "str_items ((k, VRef a) # kvs) = None"

definition dict_at :: "store \<Rightarrow> nat \<Rightarrow> (string \<times> string) list option" where
  "dict_at h a = (case obj_at h a of Some (ODict kvs) \<Rightarrow> str_items kvs | _ \<Rightarrow> None)"

text \<open>\<^verbatim>\<open>book["ask"]\<close> and \<^verbatim>\<open>book["bid"]\<close>: the addresses of the two sides.\<close>

definition book_refs :: "store \<Rightarrow> nat \<Rightarrow> (nat \<times> nat) option" where
  "book_refs h r =
     (case obj_at h r of
        Some (ODict kvs) \<Rightarrow>
          (case (map_of kvs ''ask'', map_of kvs ''bid'') of
             (Some (VRef a), Some (VRef b)) \<Rightarrow> Some (a, b)
           | _ \<Rightarrow> None)
      | _ \<Rightarrow> None)"

text \<open>
  \<^verbatim>\<open>apply_event\<close>: the bids are parsed, then the loop over them changes the dict at the
  address of the bid side in place; then the same for the asks.
\<close>

definition apply_event_store :: "store \<Rightarrow> nat \<Rightarrow> (string \<times> json) list \<Rightarrow> store \<times> error option" where
  "apply_event_store h book event =
     (case parse_levels (dict_get event ''b'' JNull) ''bids'' of
        Inl e \<Rightarrow> (h, Some e)
      | Inr bs \<Rightarrow>
          (case book_refs h book of
             None \<Rightarrow> (h, Some TypeError)
           | Some (a, b) \<Rightarrow>
               (case dict_at h b of
                  None \<Rightarrow> (h, Some TypeError)
                | Some bd \<Rightarrow>
                    (case apply_levels bd bs of
                       (bd', Some e) \<Rightarrow> (h[b := dict_obj bd'], Some e)
                     | (bd', None) \<Rightarrow>
                         (let h1 = h[b := dict_obj bd']
                          in (case parse_levels (dict_get event ''a'' JNull) ''asks'' of
                                Inl e \<Rightarrow> (h1, Some e)
                              | Inr as \<Rightarrow>
                                  (case dict_at h1 a of
                                     None \<Rightarrow> (h1, Some TypeError)
                                   | Some ad \<Rightarrow>
                                       (case apply_levels ad as of
                                          (ad', err) \<Rightarrow> (h1[a := dict_obj ad'], err)))))))))"

text \<open>
  \<^verbatim>\<open>[[p, q] for p, q in ...]\<close>: a new list object for every level, then the new list of
  the references to them.
\<close>

fun alloc_rows :: "store \<Rightarrow> (string \<times> string) list \<Rightarrow> store \<times> val list" where
  "alloc_rows h [] = (h, [])"
| "alloc_rows h ((p, q) # ls) =
     (case alloc h (OList [VStr p, VStr q]) of
        (h1, r) \<Rightarrow> (case alloc_rows h1 ls of (h2, rs) \<Rightarrow> (h2, VRef r # rs)))"

definition alloc_list :: "store \<Rightarrow> (string \<times> string) list \<Rightarrow> store \<times> nat" where
  "alloc_list h ls = (case alloc_rows h ls of (h1, rs) \<Rightarrow> alloc h1 (OList rs))"

definition book_to_levels_store :: "store \<Rightarrow> nat \<Rightarrow> error + store \<times> nat" where
  "book_to_levels_store h book =
     (case book_refs h book of
        None \<Rightarrow> Inl TypeError
      | Some (a, b) \<Rightarrow>
          (case dict_at h a of
             None \<Rightarrow> Inl TypeError
           | Some ad \<Rightarrow>
               (case sorted_side ad Ask of
                  Inl e \<Rightarrow> Inl e
                | Inr la \<Rightarrow>
                    (case alloc_list h la of
                       (h1, ra) \<Rightarrow>
                         (case dict_at h1 b of
                            None \<Rightarrow> Inl TypeError
                          | Some bd \<Rightarrow>
                              (case sorted_side bd Bid of
                                 Inl e \<Rightarrow> Inl e
                               | Inr lb \<Rightarrow>
                                   (case alloc_list h1 lb of
                                      (h2, rb) \<Rightarrow>
                                        Inr (alloc h2 (ODict [(''asks'', VRef ra),
                                                              (''bids'', VRef rb)])))))))))"

text \<open>\<^verbatim>\<open>states.append(x)\<close> on the list object at \<open>states\<close>.\<close>

definition append_store :: "store \<Rightarrow> nat \<Rightarrow> val \<Rightarrow> error + store" where
  "append_store h states v =
     (case obj_at h states of
        Some (OList vs) \<Rightarrow> Inr (h[states := OList (vs @ [v])])
      | _ \<Rightarrow> Inl TypeError)"

fun final_loop_store :: "nat \<Rightarrow> store \<Rightarrow> nat \<Rightarrow> json list \<Rightarrow> error + store" where
  "final_loop_store i h book [] = Inr h"
| "final_loop_store i h book (item # items) =
     (case depth_event i item of
        Inl e \<Rightarrow> Inl e
      | Inr ev \<Rightarrow>
          (case apply_event_store h book ev of
             (h', Some e) \<Rightarrow> Inl e
           | (h', None) \<Rightarrow> final_loop_store (Suc i) h' book items))"

fun stride_loop_store :: "int \<Rightarrow> nat \<Rightarrow> store \<Rightarrow> nat \<Rightarrow> nat \<Rightarrow> json list \<Rightarrow> error + store" where
  "stride_loop_store k n h book states [] = Inr h"
| "stride_loop_store k n h book states (item # items) =
     (case depth_event n item of
        Inl e \<Rightarrow> Inl e
      | Inr ev \<Rightarrow>
          (case apply_event_store h book ev of
             (h', Some e) \<Rightarrow> Inl e
           | (h', None) \<Rightarrow>
               if int (Suc n) mod max 1 k = 0
               then (case book_to_levels_store h' book of
                       Inl e \<Rightarrow> Inl e
                     | Inr (h1, st) \<Rightarrow>
                         (case append_store h1 states (VRef st) of
                            Inl e \<Rightarrow> Inl e
                          | Inr h2 \<Rightarrow> stride_loop_store k (Suc n) h2 book states items))
               else stride_loop_store k (Suc n) h' book states items))"

text \<open>\<^verbatim>\<open>{"ask": dict(b["ask"]), "bid": dict(b["bid"])}\<close>\<close>

definition copy_book :: "store \<Rightarrow> nat \<Rightarrow> error + store \<times> nat" where
  "copy_book h book =
     (case book_refs h book of
        None \<Rightarrow> Inl TypeError
      | Some (a0, b0) \<Rightarrow>
          (case dict_at h a0 of
             None \<Rightarrow> Inl TypeError
           | Some ad \<Rightarrow>
               (case alloc h (dict_obj ad) of
                  (h1, a) \<Rightarrow>
                    (case dict_at h1 b0 of
                       None \<Rightarrow> Inl TypeError
                     | Some bd \<Rightarrow>
                         (case alloc h1 (dict_obj bd) of
                            (h2, b) \<Rightarrow>
                              Inr (alloc h2 (ODict [(''ask'', VRef a), (''bid'', VRef b)])))))))"

text \<open>
  \<^verbatim>\<open>main\<close> from the work copy to the end of the loop: the book is a copy of the
  initial book, \<open>states\<close> a new list. The result is the store with the addresses of
  \<open>states\<close> and of the book.
\<close>

definition main_apply_updates_store :: "store \<Rightarrow> nat \<Rightarrow> json \<Rightarrow> bool \<Rightarrow> int
    \<Rightarrow> error + store \<times> nat \<times> nat" where
  "main_apply_updates_store h initial_book upd_payload final stride =
     (case copy_book h initial_book of
        Inl e \<Rightarrow> Inl e
      | Inr (h3, book) \<Rightarrow>
          (case alloc h3 (OList []) of
             (h4, states) \<Rightarrow>
               (case upd_payload of
                  JList items \<Rightarrow>
                    if final
                    then (case final_loop_store 0 h4 book items of
                            Inl e \<Rightarrow> Inl e
                          | Inr h5 \<Rightarrow>
                              (case book_to_levels_store h5 book of
                                 Inl e \<Rightarrow> Inl e
                               | Inr (h6, st) \<Rightarrow>
                                   (case append_store h6 states (VRef st) of
                                      Inl e \<Rightarrow> Inl e
                                    | Inr h7 \<Rightarrow> Inr (h7, states, book))))
                    else (case stride_loop_store stride 0 h4 book states items of
                            Inl e \<Rightarrow> Inl e
                          | Inr h5 \<Rightarrow> Inr (h5, states, book))
                | _ \<Rightarrow> Inl (ValueError UpdatesNotList))))"

text \<open>
  \<^verbatim>\<open>generate_revert_update\<close> on two books of the store. The entries of a side are new
  list objects in a new list (allocated here in their sorted order); the result is a new
  dict \<^verbatim>\<open>{"data": ...}\<close> of a new dict.
\<close>

definition read_book :: "store \<Rightarrow> nat \<Rightarrow> book option" where
  "read_book h r =
     (case book_refs h r of
        None \<Rightarrow> None
      | Some (a, b) \<Rightarrow>
          (case dict_at h a of
             None \<Rightarrow> None
           | Some ad \<Rightarrow> (case dict_at h b of
                           None \<Rightarrow> None
                         | Some bd \<Rightarrow> Some \<lparr>ask = ad, bid = bd\<rparr>)))"

definition generate_revert_update_store :: "store \<Rightarrow> nat \<Rightarrow> nat \<Rightarrow> string \<Rightarrow> error + store \<times> nat" where
  "generate_revert_update_store h current_book target_book zero_fmt =
     (case read_book h current_book of
        None \<Rightarrow> Inl TypeError
      | Some cur \<Rightarrow>
          (case read_book h target_book of
             None \<Rightarrow> Inl TypeError
           | Some tgt \<Rightarrow>
               (case side_diff cur tgt zero_fmt Bid of
                  Inl e \<Rightarrow> Inl e
                | Inr rb \<Rightarrow>
                    (case alloc_list h rb of
                       (h1, lb) \<Rightarrow>
                         (case side_diff cur tgt zero_fmt Ask of
                            Inl e \<Rightarrow> Inl e
                          | Inr ra \<Rightarrow>
                              (case alloc_list h1 ra of
                                 (h2, la) \<Rightarrow>
                                   (case alloc h2 (ODict [(''e'', VStr ''depthUpdate''),
                                                          (''b'', VRef lb), (''a'', VRef la)]) of
                                      (h3, inner) \<Rightarrow>
                                        Inr (alloc h3 (ODict [(''data'', VRef inner)])))))))))"

text \<open>
  \<^verbatim>\<open>main\<close> from the work copy to the revert, run with \<^verbatim>\<open>--emit-revert\<close>: the updates
  are applied, the final projection is taken, and the revert is generated from a copy of
  the book and a copy of the initial book. The result is the store with the addresses of
  \<open>states\<close>, of the book and of the revert.
\<close>

definition main_store :: "store \<Rightarrow> nat \<Rightarrow> json \<Rightarrow> bool \<Rightarrow> int
    \<Rightarrow> error + store \<times> nat \<times> nat \<times> nat" where
  "main_store h initial_book upd_payload final stride =
     (case main_apply_updates_store h initial_book upd_payload final stride of
        Inl e \<Rightarrow> Inl e
      | Inr (h1, states, book) \<Rightarrow>
          (case book_to_levels_store h1 book of
             Inl e \<Rightarrow> Inl e
           | Inr (h2, final_levels) \<Rightarrow>
               (case copy_book h2 book of
                  Inl e \<Rightarrow> Inl e
                | Inr (h3, current_book) \<Rightarrow>
                    (case copy_book h3 initial_book of
                       Inl e \<Rightarrow> Inl e
                     | Inr (h4, target_book) \<Rightarrow>
                         (case generate_revert_update_store h4 current_book target_book
                                 ''0.00000000'' of
                            Inl e \<Rightarrow> Inl e
                          | Inr (h5, revert) \<Rightarrow> Inr (h5, states, book, revert))))))"

text \<open>What an object refers to, and what is reachable from an address.\<close>

fun val_refs :: "val \<Rightarrow> nat list" where
  "val_refs (VStr s) = []"
| "val_refs (VRef a) = [a]"

fun refs_of :: "obj \<Rightarrow> nat list" where
  "refs_of (ODict kvs) = concat (map (\<lambda>kv. val_refs (snd kv)) kvs)"
| "refs_of (OList vs) = concat (map val_refs vs)"

inductive_set reach :: "store \<Rightarrow> nat \<Rightarrow> nat set" for h :: store and r :: nat where
  root: "r \<in> reach h r"
| step: "x \<in> reach h r \<Longrightarrow> x < length h \<Longrightarrow> y \<in> set (refs_of (h ! x)) \<Longrightarrow> y \<in> reach h r"

text \<open>
  What the store holds at an address: the dict of a side, a book with its two sides, the
  list of the rows of some levels, a projection, a revert. The last three come with their
  footprint, the addresses of all their objects.
\<close>

definition is_side :: "store \<Rightarrow> nat \<Rightarrow> (string \<times> string) list \<Rightarrow> bool" where
  "is_side h a d = (obj_at h a = Some (dict_obj d))"

definition is_book :: "store \<Rightarrow> nat \<Rightarrow> book \<Rightarrow> nat \<Rightarrow> nat \<Rightarrow> bool" where
  "is_book h r bk a b =
     (obj_at h r = Some (ODict [(''ask'', VRef a), (''bid'', VRef b)])
      \<and> is_side h a (ask bk) \<and> is_side h b (bid bk))"

definition is_rows :: "store \<Rightarrow> nat \<Rightarrow> (string \<times> string) list \<Rightarrow> nat list \<Rightarrow> bool" where
  "is_rows h l ls rs =
     (obj_at h l = Some (OList (map VRef rs))
      \<and> list_all2 (\<lambda>r pq. obj_at h r = Some (OList [VStr (fst pq), VStr (snd pq)])) rs ls)"

definition is_levels :: "store \<Rightarrow> nat \<Rightarrow> levels \<Rightarrow> nat list \<Rightarrow> bool" where
  "is_levels h r st fp =
     (\<exists>la lb ra rb.
        obj_at h r = Some (ODict [(''asks'', VRef la), (''bids'', VRef lb)])
        \<and> is_rows h la (asks st) ra \<and> is_rows h lb (bids st) rb
        \<and> fp = r # la # lb # ra @ rb)"

definition is_revert :: "store \<Rightarrow> nat \<Rightarrow> (string \<times> string) list \<Rightarrow> (string \<times> string) list
    \<Rightarrow> nat list \<Rightarrow> bool" where
  "is_revert h r bs as fp =
     (\<exists>inner lb la rb ra.
        obj_at h r = Some (ODict [(''data'', VRef inner)])
        \<and> obj_at h inner = Some (ODict [(''e'', VStr ''depthUpdate''),
                                          (''b'', VRef lb), (''a'', VRef la)])
        \<and> is_rows h lb bs rb \<and> is_rows h la as ra
        \<and> fp = r # inner # lb # la # rb @ ra)"

text \<open>
  \<open>unchanged_except S h h'\<close>: the store \<open>h'\<close> holds every object of \<open>h\<close>, each one as it
  was but for those at the addresses of \<open>S\<close>.
\<close>

definition unchanged_except :: "nat set \<Rightarrow> store \<Rightarrow> store \<Rightarrow> bool" where
  "unchanged_except S h h' =
     (length h \<le> length h' \<and> (\<forall>x. x < length h \<and> x \<notin> S \<longrightarrow> obj_at h' x = obj_at h x))"

text \<open>
  The state of a run that started on a store of \<open>n0\<close> objects: the working book with its
  two sides and the list \<open>states\<close> are four objects allocated by the run, the book holds
  \<open>bk\<close>, and \<open>states\<close> refers to the projections \<open>sts\<close>, each made of objects allocated by
  the run, none of them one of the four.
\<close>

definition run_inv :: "nat \<Rightarrow> store \<Rightarrow> nat \<Rightarrow> nat \<Rightarrow> nat \<Rightarrow> nat \<Rightarrow> book \<Rightarrow> nat list
    \<Rightarrow> levels list \<Rightarrow> bool" where
  "run_inv n0 h book a b states bk rs sts =
     (is_book h book bk a b \<and> distinct [a, b, book, states]
      \<and> n0 \<le> a \<and> n0 \<le> b \<and> n0 \<le> book \<and> n0 \<le> states
      \<and> obj_at h states = Some (OList (map VRef rs))
      \<and> list_all2 (\<lambda>r st. \<exists>fp. is_levels h r st fp
                               \<and> set fp \<inter> {a, b, book, states} = {}
                               \<and> (\<forall>x\<in>set fp. n0 \<le> x)) rs sts)"

section \<open>Evaluating the decimal constructor\<close>

lemmas Decimal_unfold =
  Decimal_def strip_def is_space_def is_digit_def digit_val_def int_of_digits_def lower_def
  parse_exponent_def parse_number_def is_nan_text_def Let_def

lemma Decimal_0: "Decimal ''0'' = Some (Finite False 0 0)"
  by (simp add: Decimal_unfold)

lemma Decimal_1: "Decimal ''1'' = Some (Finite False 1 0)"
  by (simp add: Decimal_unfold)

lemma Decimal_2: "Decimal ''2'' = Some (Finite False 2 0)"
  by (simp add: Decimal_unfold)

lemma Decimal_3: "Decimal ''3'' = Some (Finite False 3 0)"
  by (simp add: Decimal_unfold)

lemma Decimal_5: "Decimal ''5'' = Some (Finite False 5 0)"
  by (simp add: Decimal_unfold)

lemma Decimal_100_0: "Decimal ''100.0'' = Some (Finite False 1000 (- 1))"
  by (simp add: Decimal_unfold)

lemma Decimal_100_5: "Decimal ''100.5'' = Some (Finite False 1005 (- 1))"
  by (simp add: Decimal_unfold)

lemma Decimal_101_0: "Decimal ''101.0'' = Some (Finite False 1010 (- 1))"
  by (simp add: Decimal_unfold)

lemma Decimal_zero_fmt: "Decimal ''0.00000000'' = Some (Finite False 0 (- 8))"
  by (simp add: Decimal_unfold)

lemmas Decimal_literals =
  Decimal_0 Decimal_1 Decimal_2 Decimal_3 Decimal_5 Decimal_100_0 Decimal_100_5 Decimal_101_0
  Decimal_zero_fmt

section \<open>The concrete scenario\<close>

lemma scenario_snapshot:
  "book_from_snapshot [(''asks'', JList [JList [JStr ''100.5'', JStr ''2'']]),
                       (''bids'', JList [JList [JStr ''100.0'', JStr ''3'']])]
   = Inr \<lparr>ask = [(''100.5'', ''2'')], bid = [(''100.0'', ''3'')]\<rparr>"
  by (simp add: book_from_snapshot_def dict_get_def parse_levels_def parse_level_def
      Decimal_literals new_empty_book_def)

lemma scenario_event:
  "apply_event \<lparr>ask = [(''100.5'', ''2'')], bid = [(''100.0'', ''3'')]\<rparr>
     [(''a'', JList [JList [JStr ''100.5'', JStr ''5''], JList [JStr ''101.0'', JStr ''1'']]),
      (''b'', JList [JList [JStr ''100.0'', JStr ''0'']])]
   = (\<lparr>ask = [(''100.5'', ''5''), (''101.0'', ''1'')], bid = []\<rparr>, None)"
  by (simp add: apply_event_def dict_get_def parse_levels_def parse_level_def Decimal_literals)

lemma scenario_projection:
  "book_to_levels \<lparr>ask = [(''100.5'', ''5''), (''101.0'', ''1'')], bid = []\<rparr>
   = Inr \<lparr>asks = [(''100.5'', ''5''), (''101.0'', ''1'')], bids = []\<rparr>"
  by (simp add: book_to_levels_def sorted_side_def sort_by_Decimal_def Decimal_literals)

lemma scenario_revert:
  "generate_revert_update \<lparr>ask = [(''100.5'', ''5''), (''101.0'', ''1'')], bid = []\<rparr>
     \<lparr>ask = [(''100.5'', ''2'')], bid = [(''100.0'', ''3'')]\<rparr> ''0.00000000''
   = Inr (JObj [(''data'', JObj [(''e'', JStr ''depthUpdate''),
        (''b'', JList [JList [JStr ''100.0'', JStr ''3'']]),
        (''a'', JList [JList [JStr ''100.5'', JStr ''2''],
                       JList [JStr ''101.0'', JStr ''0.00000000'']])])])"
  by (simp add: generate_revert_update_def side_diff_def sort_by_Decimal_def Decimal_literals
      level_json_def)

lemma scenario_main:
  "main \<lparr>snapshot = Some (JObj [(''asks'', JList [JList [JStr ''100.5'', JStr ''2'']]),
                                (''bids'', JList [JList [JStr ''100.0'', JStr ''3'']])]),
         updates = JList [JObj [(''b'', JList [JList [JStr ''100.0'', JStr ''0'']]),
                                (''a'', JList [JList [JStr ''100.5'', JStr ''5''],
                                               JList [JStr ''101.0'', JStr ''1'']])]],
         store_every = 1, final_only = False, print_top = 0, dump = Some ''states.json'',
         emit_revert = True, save_revert = None\<rparr>
   = ([DumpStates ''states.json''
         [\<lparr>asks = [(''100.5'', ''5''), (''101.0'', ''1'')], bids = []\<rparr>],
       PrintJson (JObj [(''data'', JObj [(''e'', JStr ''depthUpdate''),
         (''b'', JList [JList [JStr ''100.0'', JStr ''3'']]),
         (''a'', JList [JList [JStr ''100.5'', JStr ''2''],
                        JList [JStr ''101.0'', JStr ''0.00000000'']])])])],
      None)"
  by (simp add: main_def main_initial_book_def iter_snapshots_def main_apply_updates_def
      depth_event_def dict_get_def scenario_snapshot scenario_event scenario_projection
      scenario_revert)

text \<open>
  C7. From the snapshot with the ask 100.5 at 2 and the bid 100.0 at 3, the one update
  that sets the bid 100.0 to 0 and the asks 100.5 to 5 and 101.0 to 1 leaves the
  projection asks 100.5 at 5, 101.0 at 1 and no bids. The revert from that book to the
  snapshot has the bids list 100.0 at 3 and the asks list 100.5 at 2, 101.0 at
  0.00000000, ascending by price. The program run on the two payloads dumps that one
  state and prints that revert.
\<close>

theorem concrete_scenario:
  "(let snap = JObj [(''asks'', JList [JList [JStr ''100.5'', JStr ''2'']]),
                     (''bids'', JList [JList [JStr ''100.0'', JStr ''3'']])];
        upd = JObj [(''b'', JList [JList [JStr ''100.0'', JStr ''0'']]),
                    (''a'', JList [JList [JStr ''100.5'', JStr ''5''],
                                   JList [JStr ''101.0'', JStr ''1'']])];
        final = \<lparr>asks = [(''100.5'', ''5''), (''101.0'', ''1'')], bids = []\<rparr>;
        revert = JObj [(''data'', JObj [(''e'', JStr ''depthUpdate''),
                   (''b'', JList [JList [JStr ''100.0'', JStr ''3'']]),
                   (''a'', JList [JList [JStr ''100.5'', JStr ''2''],
                                  JList [JStr ''101.0'', JStr ''0.00000000'']])])]
    in main \<lparr>snapshot = Some snap, updates = JList [upd], store_every = 1,
              final_only = False, print_top = 0, dump = Some ''states.json'',
              emit_revert = True, save_revert = None\<rparr>
         = ([DumpStates ''states.json'' [final], PrintJson revert], None)
       \<and> (\<exists>b0 ev bf. main_initial_book (Some snap) = Inr b0
             \<and> depth_event 0 upd = Inr ev
             \<and> apply_event b0 ev = (bf, None)
             \<and> book_to_levels bf = Inr final
             \<and> generate_revert_update bf b0 ''0.00000000'' = Inr revert))"
proof -
  have init: "main_initial_book (Some (JObj [(''asks'', JList [JList [JStr ''100.5'', JStr ''2'']]),
                     (''bids'', JList [JList [JStr ''100.0'', JStr ''3'']])]))
      = Inr \<lparr>ask = [(''100.5'', ''2'')], bid = [(''100.0'', ''3'')]\<rparr>"
    by (simp add: main_initial_book_def iter_snapshots_def scenario_snapshot)
  have ev: "depth_event 0 (JObj [(''b'', JList [JList [JStr ''100.0'', JStr ''0'']]),
                    (''a'', JList [JList [JStr ''100.5'', JStr ''5''],
                                   JList [JStr ''101.0'', JStr ''1'']])])
      = Inr [(''a'', JList [JList [JStr ''100.5'', JStr ''5''], JList [JStr ''101.0'', JStr ''1'']]),
             (''b'', JList [JList [JStr ''100.0'', JStr ''0'']])]"
    by (simp add: depth_event_def dict_get_def)
  show ?thesis
    unfolding Let_def
    apply (rule conjI)
     apply (rule scenario_main)
    apply (intro exI conjI)
        apply (rule init)
       apply (rule ev)
      apply (rule scenario_event)
     apply (rule scenario_projection)
    apply (rule scenario_revert)
    done
qed

section \<open>The Codec\<close>


lemma eq_zero_error: "eq_zero d = Inl e \<Longrightarrow> e = InvalidOperation"
  by (cases d) (auto split: if_splits)




section \<open>Parsing and applying a list of levels\<close>

lemma parse_level_accepted: "parse_level label i row = Inr pq \<Longrightarrow> accepted pq \<and> row = level_json pq"
  by (auto simp: accepted_def parse_level_def level_json_def
      split: json.splits list.splits option.splits sum.splits if_splits)

lemma parse_level_level_json: "accepted pq \<Longrightarrow> parse_level label i (level_json pq) = Inr pq"
  by (auto simp: accepted_def parse_level_def level_json_def split: option.splits sum.splits)

lemma parse_rows_accepted:
  "parse_rows label i rows = Inr out \<Longrightarrow> list_all accepted out \<and> rows = map level_json out"
proof (induction rows arbitrary: i out)
  case Nil
  then show ?case by simp
next
  case (Cons row rows)
  then show ?case
    by (auto split: sum.splits dest: parse_level_accepted)
qed

lemma parse_rows_level_json:
  "list_all accepted ls \<Longrightarrow> parse_rows label i (map level_json ls) = Inr ls"
  by (induction ls arbitrary: i) (auto simp: parse_level_level_json)



lemma accepted_eq_zero:
  "accepted pq \<Longrightarrow> \<exists>qd. Decimal (snd pq) = Some qd \<and> eq_zero qd = Inr (is_zero_text (snd pq))"
  unfolding accepted_def is_zero_text_def
  by (cases "Decimal (snd pq)"; simp) (rename_tac qd, case_tac qd; simp)

lemma apply_levels_accepted:
  "list_all accepted ls \<Longrightarrow> apply_levels d ls = (foldl set_level d ls, None)"
proof (induction ls arbitrary: d)
  case Nil
  then show ?case by simp
next
  case (Cons pq ls)
  obtain p q where pq: "pq = (p, q)" by (cases pq)
  from Cons.prems have "accepted (p, q)" by (simp add: pq)
  from accepted_eq_zero[OF this] obtain qd
    where qd: "Decimal q = Some qd" "eq_zero qd = Inr (is_zero_text q)" by auto
  from Cons.prems have "list_all accepted ls" by simp
  then show ?case
    using Cons.IH qd by (simp add: pq set_level_def)
qed

lemma map_of_set_level: "map_of (set_level d pq) = upsert (map_of d) pq"
  by (auto simp: set_level_def upsert_def update_conv' delete_conv')

lemma map_of_foldl_set_level: "map_of (foldl set_level d ls) = foldl upsert (map_of d) ls"
  by (induction ls arbitrary: d) (simp_all add: map_of_set_level)

lemma distinct_set_level: "distinct (map fst d) \<Longrightarrow> distinct (map fst (set_level d pq))"
  by (simp add: set_level_def distinct_update distinct_delete)

lemma set_set_level: "set (set_level d pq) \<subseteq> insert pq (set d)"
proof (cases "is_zero_text (snd pq)")
  case True
  then show ?thesis by (auto simp: set_level_def AList.delete_eq)
next
  case False
  have "set (AList.update (fst pq) (snd pq) d) \<subseteq> insert (fst pq, snd pq) (set d)"
    by (induction d) auto
  with False show ?thesis by (simp add: set_level_def)
qed

lemma side_ok_set_level: "side_ok d \<Longrightarrow> level_ok pq \<Longrightarrow> side_ok (set_level d pq)"
  using set_set_level[of d pq] distinct_set_level[of d pq]
  by (auto simp: side_ok_def list_all_iff)

lemma side_ok_foldl: "side_ok d \<Longrightarrow> list_all level_ok ls \<Longrightarrow> side_ok (foldl set_level d ls)"
  by (induction ls arbitrary: d) (simp_all add: side_ok_set_level)

lemma level_ok_accepted: "level_ok pq \<Longrightarrow> accepted pq"
  by (auto simp: level_ok_def accepted_def split: option.splits)

lemma list_all_level_ok_accepted: "list_all level_ok ls \<Longrightarrow> list_all accepted ls"
  by (auto simp: list_all_iff level_ok_accepted)

section \<open>Applying one event\<close>

lemma parse_levels_accepted:
  "parse_levels levels label = Inr out \<Longrightarrow> list_all accepted out"
  by (cases levels) (auto simp: parse_levels_def dest: parse_rows_accepted)

lemma apply_event_bid_error:
  "parse_levels (dict_get event ''b'' JNull) ''bids'' = Inl e \<Longrightarrow>
   apply_event book event = (book, Some e)"
  by (simp add: apply_event_def)

lemma apply_event_ask_error:
  assumes "parse_levels (dict_get event ''b'' JNull) ''bids'' = Inr bs"
      and "parse_levels (dict_get event ''a'' JNull) ''asks'' = Inl e"
  shows "apply_event book event = (book\<lparr>bid := foldl set_level (bid book) bs\<rparr>, Some e)"
  using assms apply_levels_accepted[OF parse_levels_accepted[OF assms(1)]]
  by (simp add: apply_event_def)

lemma apply_event_ok:
  assumes "parse_levels (dict_get event ''b'' JNull) ''bids'' = Inr bs"
      and "parse_levels (dict_get event ''a'' JNull) ''asks'' = Inr as"
  shows "apply_event book event
         = (book\<lparr>bid := foldl set_level (bid book) bs, ask := foldl set_level (ask book) as\<rparr>, None)"
  using assms apply_levels_accepted[OF parse_levels_accepted[OF assms(1)]]
    apply_levels_accepted[OF parse_levels_accepted[OF assms(2)]]
  by (simp add: apply_event_def)



lemma is_zero_text_0: "is_zero_text ''0''"
  by (simp add: is_zero_text_def Decimal_literals)


text \<open>
  C10. The whole bid list is validated before any bid change is applied, and the whole ask
  list before any ask change: when the bid list is rejected the book is left as it was,
  whatever the place of the rejected entry, and when the ask list is rejected the ask side
  is left as it was while all the bid changes of the event have been applied.
\<close>

theorem apply_event_side_atomic:
  "(\<forall>e. parse_levels (dict_get event ''b'' JNull) ''bids'' = Inl e \<longrightarrow>
        apply_event book event = (book, Some e))
   \<and> (\<forall>bs e. parse_levels (dict_get event ''b'' JNull) ''bids'' = Inr bs
          \<and> parse_levels (dict_get event ''a'' JNull) ''asks'' = Inl e \<longrightarrow>
        snd (apply_event book event) = Some e
        \<and> ask (fst (apply_event book event)) = ask book
        \<and> bid (fst (apply_event book event)) = foldl set_level (bid book) bs)"
  by (auto simp: apply_event_bid_error apply_event_ask_error)

theorem apply_event_side_atomic_witness:
  "apply_event \<lparr>ask = [(''100.5'', ''2'')], bid = [(''100.0'', ''3'')]\<rparr>
      [(''a'', JList []), (''b'', JList [JList [JStr ''100.0'', JStr ''0''], JList [JStr ''100.5'']])]
   = (\<lparr>ask = [(''100.5'', ''2'')], bid = [(''100.0'', ''3'')]\<rparr>, Some (ValueError (NotAPair ''bids'' 1)))
   \<and> snd (apply_event \<lparr>ask = [(''100.5'', ''2'')], bid = [(''100.0'', ''3'')]\<rparr>
      [(''a'', JList [JList [JStr ''100.5'', JStr ''5''], JList [JStr ''101.0'']]),
       (''b'', JList [JList [JStr ''100.0'', JStr ''0'']])]) = Some (ValueError (NotAPair ''asks'' 1))
   \<and> ask (fst (apply_event \<lparr>ask = [(''100.5'', ''2'')], bid = [(''100.0'', ''3'')]\<rparr>
      [(''a'', JList [JList [JStr ''100.5'', JStr ''5''], JList [JStr ''101.0'']]),
       (''b'', JList [JList [JStr ''100.0'', JStr ''0'']])])) = [(''100.5'', ''2'')]
   \<and> bid (fst (apply_event \<lparr>ask = [(''100.5'', ''2'')], bid = [(''100.0'', ''3'')]\<rparr>
      [(''a'', JList [JList [JStr ''100.5'', JStr ''5''], JList [JStr ''101.0'']]),
       (''b'', JList [JList [JStr ''100.0'', JStr ''0'']])])) = []"
proof -
  have b1: "parse_levels (dict_get [(''a'', JList []), (''b'', JList [JList [JStr ''100.0'', JStr ''0''], JList [JStr ''100.5'']])] ''b'' JNull) ''bids''
      = Inl (ValueError (NotAPair ''bids'' 1))"
    by (simp add: dict_get_def parse_levels_def parse_level_def Decimal_literals)
  have b2: "parse_levels (dict_get [(''a'', JList [JList [JStr ''100.5'', JStr ''5''], JList [JStr ''101.0'']]),
       (''b'', JList [JList [JStr ''100.0'', JStr ''0'']])] ''b'' JNull) ''bids'' = Inr [(''100.0'', ''0'')]"
    by (simp add: dict_get_def parse_levels_def parse_level_def Decimal_literals)
  have a2: "parse_levels (dict_get [(''a'', JList [JList [JStr ''100.5'', JStr ''5''], JList [JStr ''101.0'']]),
       (''b'', JList [JList [JStr ''100.0'', JStr ''0'']])] ''a'' JNull) ''asks'' = Inl (ValueError (NotAPair ''asks'' 1))"
    by (simp add: dict_get_def parse_levels_def parse_level_def Decimal_literals)
  show ?thesis
    using apply_event_side_atomic
      [of "[(''a'', JList []), (''b'', JList [JList [JStr ''100.0'', JStr ''0''], JList [JStr ''100.5'']])]"
          "\<lparr>ask = [(''100.5'', ''2'')], bid = [(''100.0'', ''3'')]\<rparr>"]
      apply_event_side_atomic
      [of "[(''a'', JList [JList [JStr ''100.5'', JStr ''5''], JList [JStr ''101.0'']]),
       (''b'', JList [JList [JStr ''100.0'', JStr ''0'']])]"
          "\<lparr>ask = [(''100.5'', ''2'')], bid = [(''100.0'', ''3'')]\<rparr>"]
      b1 b2 a2
    by (simp add: set_level_def is_zero_text_0)
qed

section \<open>Sorting by decimal value\<close>

lemma map_insort_key:
  "\<forall>y\<in>set (x # xs). g y = h (f y) \<Longrightarrow>
   map f (insort_key g x xs) = insort_key h (f x) (map f xs)"
  by (induction xs) auto

lemma map_sort_key:
  "\<forall>y\<in>set xs. g y = h (f y) \<Longrightarrow> map f (sort_key g xs) = sort_key h (map f xs)"
proof (induction xs)
  case Nil
  then show ?case by simp
next
  case (Cons x xs)
  then have "map f (insort_key g x (sort_key g xs)) = insort_key h (f x) (map f (sort_key g xs))"
    by (intro map_insort_key) simp
  with Cons show ?case by simp
qed

lemma decimal_keys_Inr:
  "decimal_keys f xs = Inr ks \<Longrightarrow>
   map snd ks = xs \<and> (\<forall>k\<in>set ks. Decimal (f (snd k)) = Some (fst k))"
  by (induction xs arbitrary: ks) (auto split: option.splits sum.splits)

lemma decimal_keys_ok:
  "\<forall>x\<in>set xs. Decimal (f x) \<noteq> None \<Longrightarrow> \<exists>ks. decimal_keys f xs = Inr ks"
  by (induction xs) auto

lemma decimal_keys_position:
  assumes "decimal_keys f xs = Inr ks"
  shows "\<forall>k\<in>set ks. position (fst k) = text_position (f (snd k))"
  using decimal_keys_Inr[OF assms] by (simp add: text_position_def)

lemma sort_by_Decimal_Inr:
  assumes "sort_by_Decimal f rv xs = Inr r"
  shows "r = (if rv then rev (sort_key (\<lambda>x. text_position (f x)) (rev xs))
              else sort_key (\<lambda>x. text_position (f x)) xs)"
proof -
  from assms obtain ks where ks: "decimal_keys f xs = Inr ks"
    by (auto simp: sort_by_Decimal_def split: sum.splits)
  from decimal_keys_Inr[OF ks] have snd_ks: "map snd ks = xs" by simp
  have pos: "\<forall>k\<in>set ks. position (fst k) = text_position (f (snd k))"
    by (rule decimal_keys_position[OF ks])
  have fwd: "map snd (sort_key (\<lambda>k. position (fst k)) ks)
             = sort_key (\<lambda>x. text_position (f x)) xs"
    using map_sort_key[of ks "\<lambda>k. position (fst k)" "\<lambda>x. text_position (f x)" snd] pos snd_ks
    by simp
  have rev_ks: "map snd (rev ks) = rev xs"
    using snd_ks by (simp add: rev_map[symmetric])
  have bwd: "map snd (sort_key (\<lambda>k. position (fst k)) (rev ks))
             = sort_key (\<lambda>x. text_position (f x)) (rev xs)"
    using map_sort_key[of "rev ks" "\<lambda>k. position (fst k)" "\<lambda>x. text_position (f x)" snd] pos
    by (simp add: rev_ks)
  have bwd': "map snd (rev (sort_key (\<lambda>k. position (fst k)) (rev ks)))
             = rev (sort_key (\<lambda>x. text_position (f x)) (rev xs))"
    using bwd rev_map[of snd "sort_key (\<lambda>k. position (fst k)) (rev ks)"] by simp
  from assms ks show ?thesis
    by (auto simp: sort_by_Decimal_def fwd bwd' split: if_splits)
qed

lemma sort_by_Decimal_ok:
  assumes "\<forall>x\<in>set xs. \<exists>d. Decimal (f x) = Some d \<and> \<not> is_nan d"
  shows "sort_by_Decimal f rv xs
         = Inr (if rv then rev (sort_key (\<lambda>x. text_position (f x)) (rev xs))
                else sort_key (\<lambda>x. text_position (f x)) xs)"
proof -
  from assms have "\<forall>x\<in>set xs. Decimal (f x) \<noteq> None" by auto
  from decimal_keys_ok[OF this] obtain ks where ks: "decimal_keys f xs = Inr ks" by blast
  have "\<not> list_ex (\<lambda>k. is_nan (fst k)) ks"
  proof
    assume "list_ex (\<lambda>k. is_nan (fst k)) ks"
    then obtain k where k: "k \<in> set ks" "is_nan (fst k)" by (auto simp: list_ex_iff)
    from decimal_keys_Inr[OF ks] k(1) have "Decimal (f (snd k)) = Some (fst k)" "snd k \<in> set xs"
      by force+
    with assms k(2) show False by auto
  qed
  with ks obtain r where "sort_by_Decimal f rv xs = Inr r"
    by (auto simp: sort_by_Decimal_def)
  with sort_by_Decimal_Inr[OF this] show ?thesis by simp
qed

lemma sort_by_Decimal_error: "sort_by_Decimal f rv xs = Inl e \<Longrightarrow> e = InvalidOperation"
proof -
  have "decimal_keys f ys = Inl e' \<Longrightarrow> e' = InvalidOperation" for ys e'
    by (induction ys) (auto split: option.splits sum.splits)
  then show "sort_by_Decimal f rv xs = Inl e \<Longrightarrow> e = InvalidOperation"
    by (auto simp: sort_by_Decimal_def split: sum.splits if_splits)
qed

lemma lookup_all_Inr: "lookup_all d ps = Inr r \<Longrightarrow> map fst r = ps \<and> set r \<subseteq> set d"
  by (induction ps arbitrary: r) (auto split: option.splits sum.splits dest: map_of_SomeD)

lemma lookup_all_items:
  "distinct (map fst d) \<Longrightarrow> set xs \<subseteq> set d \<Longrightarrow> lookup_all d (map fst xs) = Inr xs"
  by (induction xs) auto

lemma sorted_side_sorted:
  assumes "sorted_side d side = Inr r"
  shows "if side = Ask then sorted (map (\<lambda>x. text_position (fst x)) r)
         else sorted (rev (map (\<lambda>x. text_position (fst x)) r))"
proof -
  from assms obtain ps where ps: "sort_by_Decimal (\<lambda>s. s) (side \<noteq> Ask) (map fst d) = Inr ps"
    and r: "lookup_all d ps = Inr r"
    by (auto simp: sorted_side_def split: sum.splits)
  from lookup_all_Inr[OF r] have fr: "map fst r = ps" by simp
  have "map (\<lambda>x. text_position (fst x)) r = map text_position (map fst r)"
    by simp
  then have "map (\<lambda>x. text_position (fst x)) r = map text_position ps"
    by (simp only: fr)
  moreover have "if side = Ask then sorted (map text_position ps)
         else sorted (rev (map text_position ps))"
    using sort_by_Decimal_Inr[OF ps] by (auto simp: rev_map)
  ultimately show ?thesis by simp
qed

lemma level_ok_price: "level_ok pq \<Longrightarrow> \<exists>pd. Decimal (fst pq) = Some pd \<and> \<not> is_nan pd"
  by (cases "Decimal (fst pq)") (auto simp: level_ok_def)

lemma sorted_side_ok:
  assumes "side_ok d"
  shows "sorted_side d side
         = Inr (if side = Ask then sort_key (\<lambda>x. text_position (fst x)) d
                else rev (sort_key (\<lambda>x. text_position (fst x)) (rev d)))"
proof -
  from assms have dist: "distinct (map fst d)" and ok: "list_all level_ok d"
    by (simp_all add: side_ok_def)
  have "\<forall>p\<in>set (map fst d). \<exists>pd. Decimal p = Some pd \<and> \<not> is_nan pd"
    using ok by (auto simp: list_all_iff dest: level_ok_price)
  from sort_by_Decimal_ok[of "map fst d" "\<lambda>s. s", OF this]
  have s: "sort_by_Decimal (\<lambda>s. s) (side \<noteq> Ask) (map fst d)
      = Inr (if side \<noteq> Ask then rev (sort_key text_position (rev (map fst d)))
             else sort_key text_position (map fst d))" .
  have m1: "sort_key text_position (map fst d) = map fst (sort_key (\<lambda>x. text_position (fst x)) d)"
    using map_sort_key[of d "\<lambda>x. text_position (fst x)" text_position fst] by simp
  have "map fst (sort_key (\<lambda>x. text_position (fst x)) (rev d))
            = sort_key text_position (map fst (rev d))"
    using map_sort_key[of "rev d" "\<lambda>x. text_position (fst x)" text_position fst] by simp
  then have m2: "rev (sort_key text_position (rev (map fst d)))
            = map fst (rev (sort_key (\<lambda>x. text_position (fst x)) (rev d)))"
    using rev_map[of fst "sort_key (\<lambda>x. text_position (fst x)) (rev d)"] rev_map[of fst d]
    by simp
  show ?thesis
  proof (cases side)
    case Ask
    have "lookup_all d (map fst (sort_key (\<lambda>x. text_position (fst x)) d))
          = Inr (sort_key (\<lambda>x. text_position (fst x)) d)"
      by (rule lookup_all_items[OF dist]) simp
    with s Ask show ?thesis by (simp add: sorted_side_def m1)
  next
    case Bid
    have "lookup_all d (map fst (rev (sort_key (\<lambda>x. text_position (fst x)) (rev d))))
          = Inr (rev (sort_key (\<lambda>x. text_position (fst x)) (rev d)))"
      by (rule lookup_all_items[OF dist]) simp
    with s Bid show ?thesis by (simp add: sorted_side_def m2)
  qed
qed

section \<open>Price levels are keyed by text\<close>

lemma book_to_levels_ok:
  "book_ok b \<Longrightarrow>
   book_to_levels b = Inr \<lparr>asks = sort_key (\<lambda>x. text_position (fst x)) (ask b),
                            bids = rev (sort_key (\<lambda>x. text_position (fst x)) (rev (bid b)))\<rparr>"
  by (simp add: book_ok_def book_to_levels_def sorted_side_ok)

lemma Decimal_7: "Decimal ''7'' = Some (Finite False 7 0)"
  by (simp add: Decimal_unfold)

lemma Decimal_micro_long: "Decimal ''0.00000100'' = Some (Finite False 100 (- 8))"
  by (simp add: Decimal_unfold)

lemma Decimal_micro_short: "Decimal ''0.000001'' = Some (Finite False 1 (- 6))"
  by (simp add: Decimal_unfold)

lemma Decimal_1E2: "Decimal ''1E+2'' = Some (Finite False 1 2)"
  by (simp add: Decimal_unfold)

lemma Decimal_100: "Decimal ''100'' = Some (Finite False 100 0)"
  by (simp add: Decimal_unfold)

text \<open>
  C2, as stated, fails: the texts 0.00000100 and 0.000001 denote the same decimal, yet a
  zero-quantity update at 0.000001 leaves the level stored at 0.00000100 in place, and a
  non-zero update at 0.000001 adds a second level beside it.
\<close>

theorem price_text_counterexample:
  "text_position ''0.00000100'' = text_position ''0.000001''
   \<and> apply_event \<lparr>ask = [(''0.00000100'', ''5'')], bid = []\<rparr>
        [(''a'', JList [JList [JStr ''0.000001'', JStr ''0'']]), (''b'', JList [])]
      = (\<lparr>ask = [(''0.00000100'', ''5'')], bid = []\<rparr>, None)
   \<and> apply_event \<lparr>ask = [(''0.00000100'', ''5'')], bid = []\<rparr>
        [(''a'', JList [JList [JStr ''0.000001'', JStr ''7'']]), (''b'', JList [])]
      = (\<lparr>ask = [(''0.00000100'', ''5''), (''0.000001'', ''7'')], bid = []\<rparr>, None)"
  by (simp add: text_position_def apply_event_def dict_get_def parse_levels_def parse_level_def
      Decimal_micro_long Decimal_micro_short Decimal_0 Decimal_7)

lemma map_of_set_level_same:
  "map_of (set_level d (p, q)) p = (if is_zero_text q then None else Some q)"
  by (simp add: map_of_set_level upsert_def)

lemma map_of_set_level_other:
  "p2 \<noteq> p \<Longrightarrow> map_of (set_level d (p, q)) p2 = map_of d p2"
  by (simp add: map_of_set_level upsert_def)

lemma apply_event_one_ask:
  assumes "accepted (p, q)"
  shows "apply_event book [(''a'', JList [level_json (p, q)]), (''b'', JList [])]
         = (book\<lparr>ask := set_level (ask book) (p, q)\<rparr>, None)"
proof -
  have a: "parse_levels (dict_get [(''a'', JList [level_json (p, q)]), (''b'', JList [])] ''a'' JNull) ''asks''
           = Inr [(p, q)]"
    using parse_rows_level_json[of "[(p, q)]" "''asks''" 0] assms
    by (simp add: dict_get_def parse_levels_def)
  have b: "parse_levels (dict_get [(''a'', JList [level_json (p, q)]), (''b'', JList [])] ''b'' JNull) ''bids''
           = Inr []"
    by (simp add: dict_get_def parse_levels_def)
  show ?thesis
    using apply_event_ok[OF b a, of book] by simp
qed

lemma apply_event_one_bid:
  assumes "accepted (p, q)"
  shows "apply_event book [(''a'', JList []), (''b'', JList [level_json (p, q)])]
         = (book\<lparr>bid := set_level (bid book) (p, q)\<rparr>, None)"
proof -
  have b: "parse_levels (dict_get [(''a'', JList []), (''b'', JList [level_json (p, q)])] ''b'' JNull) ''bids''
           = Inr [(p, q)]"
    using parse_rows_level_json[of "[(p, q)]" "''bids''" 0] assms
    by (simp add: dict_get_def parse_levels_def)
  have a: "parse_levels (dict_get [(''a'', JList []), (''b'', JList [level_json (p, q)])] ''a'' JNull) ''asks''
           = Inr []"
    by (simp add: dict_get_def parse_levels_def)
  show ?thesis
    using apply_event_ok[OF b a, of book] by simp
qed

text \<open>
  C2, amended. A price level is identified by its price text. For every book and every
  pair the Codec accepts, the update of that one price on a side succeeds, leaves the other
  side as it was, removes the level stored under exactly that text when the quantity is
  zero and stores the quantity under exactly that text otherwise (replacing, never adding a
  second level for the text), and leaves the level of every other text as it was, also of
  a text with the same decimal value. Ordering follows the decimal value: a projected ask
  side ascends and a projected bid side descends by the decimal value of the price.
\<close>

theorem price_text_identity:
  "(accepted (p, q) \<longrightarrow>
      (\<exists>book'. apply_event book [(''a'', JList [level_json (p, q)]), (''b'', JList [])] = (book', None)
         \<and> bid book' = bid book
         \<and> map_of (ask book') p = (if is_zero_text q then None else Some q)
         \<and> (\<forall>p2. p2 \<noteq> p \<longrightarrow> map_of (ask book') p2 = map_of (ask book) p2)
         \<and> (distinct (map fst (ask book)) \<longrightarrow> distinct (map fst (ask book'))))
    \<and> (\<exists>book'. apply_event book [(''a'', JList []), (''b'', JList [level_json (p, q)])] = (book', None)
         \<and> ask book' = ask book
         \<and> map_of (bid book') p = (if is_zero_text q then None else Some q)
         \<and> (\<forall>p2. p2 \<noteq> p \<longrightarrow> map_of (bid book') p2 = map_of (bid book) p2)
         \<and> (distinct (map fst (bid book)) \<longrightarrow> distinct (map fst (bid book')))))
   \<and> (\<forall>d r. sorted_side d Ask = Inr r \<longrightarrow> sorted (map (\<lambda>x. text_position (fst x)) r))
   \<and> (\<forall>d r. sorted_side d Bid = Inr r \<longrightarrow> sorted (rev (map (\<lambda>x. text_position (fst x)) r)))"
proof (intro conjI impI allI)
  assume acc: "accepted (p, q)"
  show "\<exists>book'. apply_event book [(''a'', JList [level_json (p, q)]), (''b'', JList [])] = (book', None)
         \<and> bid book' = bid book
         \<and> map_of (ask book') p = (if is_zero_text q then None else Some q)
         \<and> (\<forall>p2. p2 \<noteq> p \<longrightarrow> map_of (ask book') p2 = map_of (ask book) p2)
         \<and> (distinct (map fst (ask book)) \<longrightarrow> distinct (map fst (ask book')))"
    using apply_event_one_ask[OF acc, of book]
    by (simp add: map_of_set_level_same map_of_set_level_other distinct_set_level)
  show "\<exists>book'. apply_event book [(''a'', JList []), (''b'', JList [level_json (p, q)])] = (book', None)
         \<and> ask book' = ask book
         \<and> map_of (bid book') p = (if is_zero_text q then None else Some q)
         \<and> (\<forall>p2. p2 \<noteq> p \<longrightarrow> map_of (bid book') p2 = map_of (bid book) p2)
         \<and> (distinct (map fst (bid book)) \<longrightarrow> distinct (map fst (bid book')))"
    using apply_event_one_bid[OF acc, of book]
    by (simp add: map_of_set_level_same map_of_set_level_other distinct_set_level)
next
  fix d r assume "sorted_side d Ask = Inr r"
  from sorted_side_sorted[OF this] show "sorted (map (\<lambda>x. text_position (fst x)) r)" by simp
next
  fix d r assume "sorted_side d Bid = Inr r"
  from sorted_side_sorted[OF this] show "sorted (rev (map (\<lambda>x. text_position (fst x)) r))" by simp
qed

theorem price_text_identity_witness:
  "apply_event \<lparr>ask = [(''0.00000100'', ''5'')], bid = []\<rparr>
        [(''a'', JList [JList [JStr ''0.00000100'', JStr ''0'']]), (''b'', JList [])]
      = (\<lparr>ask = [], bid = []\<rparr>, None)"
proof -
  have acc: "accepted (''0.00000100'', ''0'')"
    by (simp add: accepted_def Decimal_micro_long Decimal_0)
  have z: "is_zero_text ''0''"
    by (simp add: is_zero_text_def Decimal_0)
  from price_text_identity[of "''0.00000100''" "''0''" "\<lparr>ask = [(''0.00000100'', ''5'')], bid = []\<rparr>"] acc z
  obtain book' where b: "apply_event \<lparr>ask = [(''0.00000100'', ''5'')], bid = []\<rparr>
        [(''a'', JList [level_json (''0.00000100'', ''0'')]), (''b'', JList [])] = (book', None)"
     "bid book' = []" "map_of (ask book') ''0.00000100'' = None"
     "\<forall>p2. p2 \<noteq> ''0.00000100'' \<longrightarrow> map_of (ask book') p2 = None"
    by auto
  have "map_of (ask book') = Map.empty"
    using b(3,4) by (intro ext) metis
  then have "ask book' = []" by simp
  with b(1,2) show ?thesis by (cases book') (simp add: level_json_def)
qed


section \<open>Quantities in the book\<close>

lemma set_level_keeps_positive:
  assumes "list_all (\<lambda>l. \<not> is_zero_text (snd l)) d"
  shows "list_all (\<lambda>l. \<not> is_zero_text (snd l)) (set_level d pq)"
proof (cases "is_zero_text (snd pq)")
  case True
  with assms show ?thesis
    using set_set_level[of d pq] by (auto simp: list_all_iff set_level_def AList.delete_eq)
next
  case False
  with assms show ?thesis
    using set_set_level[of d pq] by (auto simp: list_all_iff)
qed

lemma foldl_set_level_keeps_positive:
  "list_all (\<lambda>l. \<not> is_zero_text (snd l)) d \<Longrightarrow>
   list_all (\<lambda>l. \<not> is_zero_text (snd l)) (foldl set_level d ls)"
  by (induction ls arbitrary: d) (simp_all add: set_level_keeps_positive)

lemma apply_event_keeps_positive:
  assumes "list_all (\<lambda>l. \<not> is_zero_text (snd l)) (ask book)"
      and "list_all (\<lambda>l. \<not> is_zero_text (snd l)) (bid book)"
  shows "list_all (\<lambda>l. \<not> is_zero_text (snd l)) (ask (fst (apply_event book event)))
       \<and> list_all (\<lambda>l. \<not> is_zero_text (snd l)) (bid (fst (apply_event book event)))"
proof (cases "parse_levels (dict_get event ''b'' JNull) ''bids''")
  case (Inl e)
  with assms show ?thesis by (simp add: apply_event_bid_error)
next
  case b: (Inr bs)
  show ?thesis
  proof (cases "parse_levels (dict_get event ''a'' JNull) ''asks''")
    case (Inl e)
    with assms b show ?thesis
      by (simp add: apply_event_ask_error foldl_set_level_keeps_positive)
  next
    case (Inr as)
    with assms b show ?thesis
      by (simp add: apply_event_ok foldl_set_level_keeps_positive)
  qed
qed

text \<open>
  C3. The snapshot with the one ask 100.5 at quantity 0 gives a book that holds that level,
  at a quantity that is zero; the same pair in an update on the empty book is a removal and
  leaves the book empty.
\<close>

theorem snapshot_keeps_zero_quantity:
  "book_from_snapshot [(''asks'', JList [JList [JStr ''100.5'', JStr ''0'']]), (''bids'', JList [])]
     = Inr \<lparr>ask = [(''100.5'', ''0'')], bid = []\<rparr>
   \<and> is_zero_text ''0''
   \<and> apply_event new_empty_book
        [(''a'', JList [JList [JStr ''100.5'', JStr ''0'']]), (''b'', JList [])]
     = (new_empty_book, None)"
  by (simp add: book_from_snapshot_def new_empty_book_def apply_event_def dict_get_def
      parse_levels_def parse_level_def is_zero_text_def Decimal_literals)

section \<open>The update stream\<close>

lemma final_loop_append:
  "final_loop i book (pre @ rest) =
     (case final_loop i book pre of
        Inl e \<Rightarrow> Inl e
      | Inr book' \<Rightarrow> final_loop (i + length pre) book' rest)"
proof (induction pre arbitrary: i book)
  case Nil
  then show ?case by simp
next
  case (Cons item pre)
  show ?case
  proof (cases "depth_event i item")
    case (Inl e)
    then show ?thesis by simp
  next
    case (Inr ev)
    obtain book' err where ap: "apply_event book ev = (book', err)" by (cases "apply_event book ev")
    show ?thesis
      using Inr ap Cons.IH[of "Suc i" book'] by (cases err) (simp_all split: sum.splits)
  qed
qed

lemma stride_loop_append:
  "stride_loop k n book states (pre @ rest) =
     (case stride_loop k n book states pre of
        Inl e \<Rightarrow> Inl e
      | Inr (states', book') \<Rightarrow> stride_loop k (n + length pre) book' states' rest)"
proof (induction pre arbitrary: n book states)
  case Nil
  then show ?case by simp
next
  case (Cons item pre)
  show ?case
  proof (cases "depth_event n item")
    case (Inl e)
    then show ?thesis by simp
  next
    case (Inr ev)
    obtain book' err where ap: "apply_event book ev = (book', err)" by (cases "apply_event book ev")
    show ?thesis
    proof (cases err)
      case (Some e)
      with Inr ap show ?thesis by simp
    next
      case None
      show ?thesis
      proof (cases "int (Suc n) mod max 1 k = 0")
        case True
        then show ?thesis
          using Inr ap None Cons.IH[of "Suc n" book']
          by (cases "book_to_levels book'") (simp_all split: sum.splits prod.splits)
      next
        case False
        then show ?thesis
          using Inr ap None Cons.IH[of "Suc n" book' states]
          by (simp split: sum.splits prod.splits)
      qed
    qed
  qed
qed

lemma main_apply_updates_bad_item:
  assumes "main_apply_updates b0 (JList pre) final k = Inr r"
      and "depth_event (length pre) item = Inl e"
  shows "main_apply_updates b0 (JList (pre @ item # post)) final k = Inl e"
proof (cases final)
  case True
  with assms(1) obtain book' where "final_loop 0 \<lparr>ask = ask b0, bid = bid b0\<rparr> pre = Inr book'"
    by (auto simp: main_apply_updates_def split: sum.splits)
  with assms(2) True show ?thesis
    by (simp add: main_apply_updates_def final_loop_append)
next
  case False
  with assms(1) have "stride_loop k 0 \<lparr>ask = ask b0, bid = bid b0\<rparr> [] pre = Inr r"
    by (simp add: main_apply_updates_def)
  with assms(2) False show ?thesis
    by (cases r) (simp add: main_apply_updates_def stride_loop_append)
qed

lemma main_no_output:
  assumes "main_initial_book (snapshot a) = Inr b0"
      and "main_apply_updates b0 (updates a) (final_only a) (store_every a) = Inl e"
  shows "main a = ([], Some e)"
  using assms by (simp add: main_def)

text \<open>
  C8, as stated, fails: the update object with neither \<^verbatim>\<open>a\<close> nor \<^verbatim>\<open>b\<close> raises nothing.
  It is read as the event with two empty lists, and the run goes on to its output.
\<close>

theorem missing_keys_counterexample:
  "depth_event 0 (JObj []) = Inr [(''a'', JList []), (''b'', JList [])]
   \<and> main \<lparr>snapshot = None, updates = JList [JObj []], store_every = 1, final_only = False,
            print_top = 0, dump = Some ''states.json'', emit_revert = False, save_revert = None\<rparr>
     = ([DumpStates ''states.json'' [\<lparr>asks = [], bids = []\<rparr>]], None)"
  by (simp add: main_def main_initial_book_def new_empty_book_def main_apply_updates_def
      depth_event_def dict_get_def apply_event_def parse_levels_def book_to_levels_def
      sorted_side_def sort_by_Decimal_def Let_def)

text \<open>
  C8, amended. The reader takes the object under \<^verbatim>\<open>data\<close> when the item has that key
  and the item itself otherwise, so an item and the same item nested under \<^verbatim>\<open>data\<close>
  give the same event. A missing \<^verbatim>\<open>a\<close> or \<^verbatim>\<open>b\<close> is read as the empty list. An item
  that is not an object, a \<^verbatim>\<open>data\<close> value that is not an object, and an \<^verbatim>\<open>a\<close> or
  \<^verbatim>\<open>b\<close> that is present and not a list raise a \<^verbatim>\<open>ValueError\<close>; so does an updates
  payload that is not a list. Such an error ends the run with nothing written, whatever
  was applied before it.
\<close>

theorem update_payload_shape:
  "(map_of d ''data'' = None \<longrightarrow>
      depth_event i (JObj d) =
        (if is_list (dict_get d ''a'' (JList [])) \<and> is_list (dict_get d ''b'' (JList []))
         then Inr [(''a'', dict_get d ''a'' (JList [])), (''b'', dict_get d ''b'' (JList []))]
         else Inl (ValueError (MissingArrays i))))
   \<and> (\<forall>payload. map_of d ''data'' = Some (JObj payload) \<longrightarrow>
      depth_event i (JObj d) =
        (if is_list (dict_get payload ''a'' (JList [])) \<and> is_list (dict_get payload ''b'' (JList []))
         then Inr [(''a'', dict_get payload ''a'' (JList [])), (''b'', dict_get payload ''b'' (JList []))]
         else Inl (ValueError (MissingArrays i))))
   \<and> (\<forall>payload. map_of payload ''data'' = None \<longrightarrow>
      depth_event i (JObj [(''data'', JObj payload)]) = depth_event i (JObj payload))
   \<and> (\<forall>v. map_of d ''data'' = Some v \<and> \<not> is_obj v \<longrightarrow>
      depth_event i (JObj d) = Inl (ValueError (PayloadNotObject i)))
   \<and> (\<not> is_obj item \<longrightarrow> depth_event i item = Inl (ValueError (UpdateNotObject i)))
   \<and> (\<forall>a b0 pre post r e.
        main_initial_book (snapshot a) = Inr b0
        \<and> updates a = JList (pre @ item # post)
        \<and> main_apply_updates b0 (JList pre) (final_only a) (store_every a) = Inr r
        \<and> depth_event (length pre) item = Inl e \<longrightarrow> main a = ([], Some e))
   \<and> (\<forall>a b0. main_initial_book (snapshot a) = Inr b0 \<and> \<not> is_list (updates a) \<longrightarrow>
        main a = ([], Some (ValueError UpdatesNotList)))"
proof (intro conjI allI impI)
  assume "map_of d ''data'' = None"
  then show "depth_event i (JObj d) =
        (if is_list (dict_get d ''a'' (JList [])) \<and> is_list (dict_get d ''b'' (JList []))
         then Inr [(''a'', dict_get d ''a'' (JList [])), (''b'', dict_get d ''b'' (JList []))]
         else Inl (ValueError (MissingArrays i)))"
    by (cases "dict_get d ''a'' (JList [])"; cases "dict_get d ''b'' (JList [])")
       (simp_all add: depth_event_def dict_get_def[of d "''data''"])
next
  fix payload assume "map_of d ''data'' = Some (JObj payload)"
  then show "depth_event i (JObj d) =
        (if is_list (dict_get payload ''a'' (JList [])) \<and> is_list (dict_get payload ''b'' (JList []))
         then Inr [(''a'', dict_get payload ''a'' (JList [])), (''b'', dict_get payload ''b'' (JList []))]
         else Inl (ValueError (MissingArrays i)))"
    by (cases "dict_get payload ''a'' (JList [])"; cases "dict_get payload ''b'' (JList [])")
       (simp_all add: depth_event_def dict_get_def[of d "''data''"])
next
  fix payload :: "(string \<times> json) list" assume "map_of payload ''data'' = None"
  then show "depth_event i (JObj [(''data'', JObj payload)]) = depth_event i (JObj payload)"
    by (simp add: depth_event_def dict_get_def[of _ "''data''"])
next
  fix v assume "map_of d ''data'' = Some v \<and> \<not> is_obj v"
  then show "depth_event i (JObj d) = Inl (ValueError (PayloadNotObject i))"
    by (cases v) (simp_all add: depth_event_def dict_get_def[of d "''data''"])
next
  assume "\<not> is_obj item"
  then show "depth_event i item = Inl (ValueError (UpdateNotObject i))"
    by (cases item) (simp_all add: depth_event_def)
next
  fix a :: args and b0 pre post r e
  assume h: "main_initial_book (snapshot a) = Inr b0
        \<and> updates a = JList (pre @ item # post)
        \<and> main_apply_updates b0 (JList pre) (final_only a) (store_every a) = Inr r
        \<and> depth_event (length pre) item = Inl e"
  then have "main_apply_updates b0 (updates a) (final_only a) (store_every a) = Inl e"
    using main_apply_updates_bad_item[of b0 pre "final_only a" "store_every a" r item e post]
    by simp
  with h show "main a = ([], Some e)"
    by (simp add: main_no_output)
next
  fix a :: args and b0
  assume h: "main_initial_book (snapshot a) = Inr b0 \<and> \<not> is_list (updates a)"
  then have "main_apply_updates b0 (updates a) (final_only a) (store_every a)
             = Inl (ValueError UpdatesNotList)"
    by (cases "updates a") (simp_all add: main_apply_updates_def)
  with h show "main a = ([], Some (ValueError UpdatesNotList))"
    by (simp add: main_no_output)
qed


theorem update_payload_shape_witness:
  "depth_event 1 (JObj [(''data'', JObj [(''a'', JList [])])]) = Inr [(''a'', JList []), (''b'', JList [])]
   \<and> depth_event 1 (JInt 5) = Inl (ValueError (UpdateNotObject 1))
   \<and> main \<lparr>snapshot = None, updates = JList [JObj [], JInt 5], store_every = 1,
            final_only = False, print_top = 0, dump = Some ''states.json'',
            emit_revert = False, save_revert = None\<rparr>
     = ([], Some (ValueError (UpdateNotObject 1)))"
proof -
  let ?a = "\<lparr>snapshot = None, updates = JList [JObj [], JInt 5], store_every = 1,
            final_only = False, print_top = 0, dump = Some ''states.json'',
            emit_revert = False, save_revert = None\<rparr>"
  note th = update_payload_shape[of "[(''data'', JObj [(''a'', JList [])])]" 1 "JInt 5"]
  have init: "main_initial_book (snapshot ?a) = Inr new_empty_book"
    by (simp add: main_initial_book_def)
  have pre: "main_apply_updates new_empty_book (JList [JObj []]) (final_only ?a) (store_every ?a)
             = Inr ([\<lparr>asks = [], bids = []\<rparr>], \<lparr>ask = [], bid = []\<rparr>)"
    by (simp add: new_empty_book_def main_apply_updates_def
      depth_event_def dict_get_def apply_event_def parse_levels_def book_to_levels_def
      sorted_side_def sort_by_Decimal_def Let_def)
  have bad: "depth_event 1 (JInt 5) = Inl (ValueError (UpdateNotObject 1))"
    using th by simp
  have "main ?a = ([], Some (ValueError (UpdateNotObject 1)))"
  proof -
    from th have "\<forall>a b0 pre post r e.
        main_initial_book (snapshot a) = Inr b0
        \<and> updates a = JList (pre @ JInt 5 # post)
        \<and> main_apply_updates b0 (JList pre) (final_only a) (store_every a) = Inr r
        \<and> depth_event (length pre) (JInt 5) = Inl e \<longrightarrow> main a = ([], Some e)"
      by blast
    from this[rule_format, of ?a new_empty_book "[JObj []]" "[]"
        "([\<lparr>asks = [], bids = []\<rparr>], \<lparr>ask = [], bid = []\<rparr>)" "ValueError (UpdateNotObject 1)"]
      init pre bad
    show ?thesis by simp
  qed
  moreover have "depth_event 1 (JObj [(''data'', JObj [(''a'', JList [])])])
      = Inr [(''a'', JList []), (''b'', JList [])]"
    using th by (simp add: dict_get_def)
  ultimately show ?thesis using bad by simp
qed

section \<open>Sampling\<close>

lemma depth_event_index:
  "depth_event i item = Inr ev \<Longrightarrow> depth_event j item = Inr ev"
  unfolding depth_event_def Let_def
  by (auto split: json.splits prod.splits)

lemma valid_updateD:
  assumes "valid_update item"
  shows "\<exists>ev bs as. depth_event i item = Inr ev
           \<and> parse_levels (dict_get ev ''b'' JNull) ''bids'' = Inr bs
           \<and> parse_levels (dict_get ev ''a'' JNull) ''asks'' = Inr as
           \<and> list_all level_ok bs \<and> list_all level_ok as"
proof -
  from assms obtain ev bs as where ev: "depth_event 0 item = Inr ev"
    and "parse_levels (dict_get ev ''b'' JNull) ''bids'' = Inr bs"
    and "parse_levels (dict_get ev ''a'' JNull) ''asks'' = Inr as"
    and "list_all level_ok bs" "list_all level_ok as"
    by (auto simp: valid_update_def split: sum.splits)
  with depth_event_index[OF ev, of i] show ?thesis by blast
qed

lemma apply_valid_update:
  assumes "book_ok book" and "valid_update item"
  shows "\<exists>ev book'. depth_event i item = Inr ev \<and> apply_event book ev = (book', None)
           \<and> book_ok book'"
proof -
  from valid_updateD[OF assms(2), of i] obtain ev bs as where
    ev: "depth_event i item = Inr ev"
    and b: "parse_levels (dict_get ev ''b'' JNull) ''bids'' = Inr bs"
    and a: "parse_levels (dict_get ev ''a'' JNull) ''asks'' = Inr as"
    and ok: "list_all level_ok bs" "list_all level_ok as" by blast
  have "book_ok (book\<lparr>bid := foldl set_level (bid book) bs, ask := foldl set_level (ask book) as\<rparr>)"
    using assms(1) ok by (simp add: book_ok_def side_ok_foldl)
  with ev apply_event_ok[OF b a, of book] show ?thesis by blast
qed

lemma final_loop_index:
  "final_loop i book items = Inr b \<Longrightarrow> final_loop j book items = Inr b"
proof (induction items arbitrary: i j book)
  case Nil
  then show ?case by simp
next
  case (Cons item items)
  from Cons.prems obtain ev where ev: "depth_event i item = Inr ev"
    by (auto split: sum.splits)
  from Cons.prems ev obtain book' where ap: "apply_event book ev = (book', None)"
    by (auto split: prod.splits option.splits)
  from Cons.prems ev ap have "final_loop (Suc i) book' items = Inr b" by simp
  from Cons.IH[OF this, of "Suc j"] depth_event_index[OF ev, of j] ap
  show ?case by simp
qed

lemma final_loop_valid:
  "book_ok book \<Longrightarrow> list_all valid_update items \<Longrightarrow>
   \<exists>book'. final_loop i book items = Inr book' \<and> book_ok book'"
proof (induction items arbitrary: i book)
  case Nil
  then show ?case by simp
next
  case (Cons item items)
  from Cons.prems have v: "valid_update item" and vs: "list_all valid_update items" by simp_all
  from apply_valid_update[OF Cons.prems(1) v, of i] obtain ev book1 where
    ev: "depth_event i item = Inr ev" and ap: "apply_event book ev = (book1, None)"
    and ok1: "book_ok book1" by blast
  from Cons.IH[OF ok1 vs, of "Suc i"] ev ap show ?case by simp
qed

lemma book_to_levels_valid: "book_ok b \<Longrightarrow> \<exists>st. book_to_levels b = Inr st"
  by (simp add: book_to_levels_ok)

lemma stride_condition:
  "(int (Suc n) mod max 1 k = 0) = (Suc n mod nat (max 1 k) = 0)"
proof -
  have "max 1 k = int (nat (max 1 k))" by simp
  then have "int (Suc n) mod max 1 k = int (Suc n mod nat (max 1 k))"
    by (metis zmod_int)
  then show ?thesis by simp
qed

lemma count_multiples:
  "0 < K \<Longrightarrow> length (filter (\<lambda>m. m mod K = 0) [1..<Suc N]) = N div K"
  by (induction N) (simp_all add: div_Suc)


lemma upt_from_1: "[Suc 0..<Suc (Suc N)] = Suc 0 # map Suc [Suc 0..<Suc N]"
proof -
  have "[Suc 0..<Suc (Suc N)] = Suc 0 # [Suc (Suc 0)..<Suc (Suc N)]"
    by (rule upt_conv_Cons) simp
  also have "[Suc (Suc 0)..<Suc (Suc N)] = map Suc [Suc 0..<Suc N]"
    by (simp only: map_Suc_upt)
  finally show ?thesis .
qed

lemma stride_loop_valid:
  assumes "book_ok book" and "list_all valid_update items"
  shows "\<exists>new book'. stride_loop k n book states items = Inr (states @ new, book')
          \<and> book_ok book' \<and> final_loop n book items = Inr book'
          \<and> list_all2 (\<lambda>m st. \<exists>bm. final_loop n book (take m items) = Inr bm
                                  \<and> book_to_levels bm = Inr st)
               (filter (\<lambda>m. (n + m) mod nat (max 1 k) = 0) [1..<Suc (length items)]) new"
  using assms
proof (induction items arbitrary: n book states)
  case Nil
  then show ?case by simp
next
  case (Cons item items)
  let ?K = "nat (max 1 k)"
  from Cons.prems have v: "valid_update item" and vs: "list_all valid_update items" by simp_all
  from apply_valid_update[OF Cons.prems(1) v, of n] obtain ev book1 where
    ev: "depth_event n item = Inr ev" and ap: "apply_event book ev = (book1, None)"
    and ok1: "book_ok book1" by blast
  have step: "final_loop n book (item # xs) = final_loop (Suc n) book1 xs" for xs
    using ev ap by simp
  have shift: "filter (\<lambda>m. (n + m) mod ?K = 0) [1..<Suc (length (item # items))]
      = (if Suc n mod ?K = 0 then [Suc 0] else [])
        @ map Suc (filter (\<lambda>m. (Suc n + m) mod ?K = 0) [1..<Suc (length items)])"
    by (simp add: upt_from_1 filter_map comp_def del: upt_Suc)
  show ?case
  proof (cases "Suc n mod ?K = 0")
    case True
    from book_to_levels_valid[OF ok1] obtain st where st: "book_to_levels book1 = Inr st" by blast
    from Cons.IH[OF ok1 vs, of "Suc n" "states @ [st]"] obtain new' book' where
      run: "stride_loop k (Suc n) book1 (states @ [st]) items = Inr ((states @ [st]) @ new', book')"
      and ok': "book_ok book'" and fin: "final_loop (Suc n) book1 items = Inr book'"
      and caps: "list_all2 (\<lambda>m st. \<exists>bm. final_loop (Suc n) book1 (take m items) = Inr bm
                                  \<and> book_to_levels bm = Inr st)
               (filter (\<lambda>m. (Suc n + m) mod ?K = 0) [1..<Suc (length items)]) new'"
      by blast
    have c: "int (Suc n) mod max 1 k = 0"
      using True by (simp only: stride_condition)
    have "stride_loop k n book states (item # items) = Inr (states @ (st # new'), book')"
      using ev ap c st run by (simp del: of_nat_Suc)
    moreover have "final_loop n book (item # items) = Inr book'"
      using fin by (simp only: step)
    moreover have "list_all2 (\<lambda>m st. \<exists>bm. final_loop n book (take m (item # items)) = Inr bm
                                  \<and> book_to_levels bm = Inr st)
               (filter (\<lambda>m. (n + m) mod ?K = 0) [1..<Suc (length (item # items))]) (st # new')"
    proof -
      have "list_all2 (\<lambda>m st. \<exists>bm. final_loop n book (take m (item # items)) = Inr bm
                                  \<and> book_to_levels bm = Inr st)
               (Suc 0 # map Suc (filter (\<lambda>m. (Suc n + m) mod ?K = 0) [1..<Suc (length items)]))
               (st # new')"
        using caps st ev ap by (simp add: list_all2_map1 del: upt_Suc)
      moreover have "filter (\<lambda>m. (n + m) mod ?K = 0) [1..<Suc (length (item # items))]
          = Suc 0 # map Suc (filter (\<lambda>m. (Suc n + m) mod ?K = 0) [1..<Suc (length items)])"
        using True by (simp only: shift if_True append_Cons append_Nil simp_thms)
      ultimately show ?thesis by (simp only:)
    qed
    ultimately show ?thesis using ok' by blast
  next
    case False
    from Cons.IH[OF ok1 vs, of "Suc n" states] obtain new' book' where
      run: "stride_loop k (Suc n) book1 states items = Inr (states @ new', book')"
      and ok': "book_ok book'" and fin: "final_loop (Suc n) book1 items = Inr book'"
      and caps: "list_all2 (\<lambda>m st. \<exists>bm. final_loop (Suc n) book1 (take m items) = Inr bm
                                  \<and> book_to_levels bm = Inr st)
               (filter (\<lambda>m. (Suc n + m) mod ?K = 0) [1..<Suc (length items)]) new'"
      by blast
    have c: "int (Suc n) mod max 1 k \<noteq> 0"
      using False by (simp only: stride_condition not_False_eq_True)
    have "stride_loop k n book states (item # items) = Inr (states @ new', book')"
      using ev ap c run by (simp del: of_nat_Suc)
    moreover have "final_loop n book (item # items) = Inr book'"
      using fin by (simp only: step)
    moreover have "list_all2 (\<lambda>m st. \<exists>bm. final_loop n book (take m (item # items)) = Inr bm
                                  \<and> book_to_levels bm = Inr st)
               (filter (\<lambda>m. (n + m) mod ?K = 0) [1..<Suc (length (item # items))]) new'"
    proof -
      have "list_all2 (\<lambda>m st. \<exists>bm. final_loop n book (take m (item # items)) = Inr bm
                                  \<and> book_to_levels bm = Inr st)
               (map Suc (filter (\<lambda>m. (Suc n + m) mod ?K = 0) [1..<Suc (length items)]))
               new'"
        using caps ev ap by (simp add: list_all2_map1 del: upt_Suc)
      moreover have "filter (\<lambda>m. (n + m) mod ?K = 0) [1..<Suc (length (item # items))]
          = map Suc (filter (\<lambda>m. (Suc n + m) mod ?K = 0) [1..<Suc (length items)])"
        using False by (simp only: shift if_False append_Nil simp_thms)
      ultimately show ?thesis by (simp only:)
    qed
    ultimately show ?thesis using ok' by blast
  qed
qed


lemma stride_loop_max:
  "max 1 k = max 1 k' \<Longrightarrow> stride_loop k n book states items = stride_loop k' n book states items"
proof (induction items arbitrary: n book states)
  case Nil
  then show ?case by simp
next
  case (Cons item items)
  show ?case
  proof (cases "depth_event n item")
    case (Inl e)
    then show ?thesis by simp
  next
    case (Inr ev)
    obtain book' err where ap: "apply_event book ev = (book', err)" by (cases "apply_event book ev")
    show ?thesis
    proof (cases err)
      case (Some e)
      with Inr ap show ?thesis by simp
    next
      case None
      show ?thesis
      proof (cases "book_to_levels book'")
        case (Inl e)
        with Inr ap None Cons.prems Cons.IH[OF Cons.prems, of "Suc n" book' states]
        show ?thesis by (simp del: of_nat_Suc)
      next
        case st: (Inr st)
        with Inr ap None Cons.prems Cons.IH[OF Cons.prems, of "Suc n" book' states]
          Cons.IH[OF Cons.prems, of "Suc n" book' "states @ [st]"]
        show ?thesis by (simp del: of_nat_Suc)
      qed
    qed
  qed
qed

lemma book_copy: "\<lparr>ask = ask b, bid = bid b\<rparr> = (b :: book)"
  by simp

lemma main_apply_updates_stride:
  "main_apply_updates b0 (JList items) False k = stride_loop k 0 b0 [] items"
  by (simp add: main_apply_updates_def book_copy)

lemma main_apply_updates_final:
  "main_apply_updates b0 (JList items) True k =
     (case final_loop 0 b0 items of
        Inl e \<Rightarrow> Inl e
      | Inr book' \<Rightarrow> (case book_to_levels book' of
                        Inl e \<Rightarrow> Inl e
                      | Inr st \<Rightarrow> Inr ([st], book')))"
  by (simp add: main_apply_updates_def book_copy)

text \<open>
  C6. Take a book of the data model and \<open>N\<close> valid update items (each of the expected
  shape, every entry accepted by the Codec and a level of the data model). Without
  \<^verbatim>\<open>--final-only\<close>, the run with \<^verbatim>\<open>--store-every k\<close> succeeds and stores exactly
  \<open>N div max 1 k\<close> projections: one for each count \<open>m\<close> of applied events that
  \<open>max 1 k\<close> divides, in order, each the projection of the book after the first \<open>m\<close>
  events. So stride 1 stores \<open>N\<close> projections, and a stride of 0 or less runs as stride 1
  does. With \<^verbatim>\<open>--final-only\<close> the run stores exactly one projection, that of the book
  after the last event; with no event at all it is the projection of the initial book.
\<close>

theorem sampler_capture_counts:
  "(book_ok b0 \<and> list_all valid_update items \<longrightarrow>
      (\<exists>states book. main_apply_updates b0 (JList items) False k = Inr (states, book)
          \<and> length states = length items div nat (max 1 k)
          \<and> list_all2 (\<lambda>m st. \<exists>bm. final_loop 0 b0 (take m items) = Inr bm
                                  \<and> book_to_levels bm = Inr st)
               (filter (\<lambda>m. m mod nat (max 1 k) = 0) [1..<Suc (length items)]) states)
    \<and> (\<exists>st book. main_apply_updates b0 (JList items) True k = Inr ([st], book)
          \<and> final_loop 0 b0 items = Inr book \<and> book_to_levels book = Inr st)
    \<and> (items = [] \<longrightarrow>
          (\<exists>st. main_apply_updates b0 (JList items) True k = Inr ([st], b0)
             \<and> book_to_levels b0 = Inr st)))
   \<and> (k \<le> 0 \<longrightarrow>
        main_apply_updates b0 (JList items) False k = main_apply_updates b0 (JList items) False 1)"
proof (intro conjI impI)
  assume h: "book_ok b0 \<and> list_all valid_update items"
  then have ok: "book_ok b0" and vs: "list_all valid_update items" by simp_all
  from stride_loop_valid[OF ok vs, of k 0 "[]"] obtain new book' where
    run: "stride_loop k 0 b0 [] items = Inr (new, book')"
    and caps: "list_all2 (\<lambda>m st. \<exists>bm. final_loop 0 b0 (take m items) = Inr bm
                                  \<and> book_to_levels bm = Inr st)
               (filter (\<lambda>m. m mod nat (max 1 k) = 0) [1..<Suc (length items)]) new"
    by auto
  have "length new = length (filter (\<lambda>m. m mod nat (max 1 k) = 0) [1..<Suc (length items)])"
    using caps by (simp add: list_all2_lengthD)
  also have "\<dots> = length items div nat (max 1 k)"
    by (rule count_multiples) simp
  finally have len: "length new = length items div nat (max 1 k)" .
  show "\<exists>states book. main_apply_updates b0 (JList items) False k = Inr (states, book)
          \<and> length states = length items div nat (max 1 k)
          \<and> list_all2 (\<lambda>m st. \<exists>bm. final_loop 0 b0 (take m items) = Inr bm
                                  \<and> book_to_levels bm = Inr st)
               (filter (\<lambda>m. m mod nat (max 1 k) = 0) [1..<Suc (length items)]) states"
    unfolding main_apply_updates_stride using run caps len by blast
next
  assume h: "book_ok b0 \<and> list_all valid_update items"
  then have ok: "book_ok b0" and vs: "list_all valid_update items" by simp_all
  from final_loop_valid[OF ok vs, of 0] obtain book' where
    fin: "final_loop 0 b0 items = Inr book'" and ok': "book_ok book'" by blast
  from book_to_levels_valid[OF ok'] obtain st where st: "book_to_levels book' = Inr st" by blast
  show "\<exists>st book. main_apply_updates b0 (JList items) True k = Inr ([st], book)
          \<and> final_loop 0 b0 items = Inr book \<and> book_to_levels book = Inr st"
    unfolding main_apply_updates_final using fin st by simp
next
  assume h: "book_ok b0 \<and> list_all valid_update items" and e: "items = []"
  from book_to_levels_valid[of b0] h obtain st where st: "book_to_levels b0 = Inr st" by blast
  show "\<exists>st. main_apply_updates b0 (JList items) True k = Inr ([st], b0)
             \<and> book_to_levels b0 = Inr st"
    unfolding main_apply_updates_final using st e by simp
next
  assume "k \<le> 0"
  then have "max 1 k = max 1 (1::int)" by simp
  from stride_loop_max[OF this]
  show "main_apply_updates b0 (JList items) False k = main_apply_updates b0 (JList items) False 1"
    by (simp only: main_apply_updates_stride)
qed


theorem sampler_capture_counts_witness:
  "\<exists>states book.
     main_apply_updates \<lparr>ask = [(''100.5'', ''2'')], bid = [(''100.0'', ''3'')]\<rparr>
       (JList [JObj [(''a'', JList [JList [JStr ''100.5'', JStr ''5'']])],
               JObj [],
               JObj [(''data'', JObj [(''b'', JList [JList [JStr ''100.0'', JStr ''0'']])])]])
       False 2 = Inr (states, book)
     \<and> length states = 1"
proof -
  have ok: "book_ok \<lparr>ask = [(''100.5'', ''2'')], bid = [(''100.0'', ''3'')]\<rparr>"
    by (simp add: book_ok_def side_ok_def level_ok_def Decimal_literals)
  have v1: "valid_update (JObj [(''a'', JList [JList [JStr ''100.5'', JStr ''5'']])])"
    by (simp add: valid_update_def depth_event_def dict_get_def parse_levels_def parse_level_def
        level_ok_def Decimal_literals Let_def)
  have v2: "valid_update (JObj [])"
    by (simp add: valid_update_def depth_event_def dict_get_def parse_levels_def Let_def)
  have v3: "valid_update (JObj [(''data'', JObj [(''b'', JList [JList [JStr ''100.0'', JStr ''0'']])])])"
    by (simp add: valid_update_def depth_event_def dict_get_def parse_levels_def parse_level_def
        level_ok_def Decimal_literals Let_def)
  have n: "length [JObj [(''a'', JList [JList [JStr ''100.5'', JStr ''5'']])],
               JObj [],
               JObj [(''data'', JObj [(''b'', JList [JList [JStr ''100.0'', JStr ''0'']])])]]
           div nat (max 1 2) = 1"
    by simp
  show ?thesis
    using sampler_capture_counts
      [of "\<lparr>ask = [(''100.5'', ''2'')], bid = [(''100.0'', ''3'')]\<rparr>"
          "[JObj [(''a'', JList [JList [JStr ''100.5'', JStr ''5'']])],
               JObj [],
               JObj [(''data'', JObj [(''b'', JList [JList [JStr ''100.0'', JStr ''0'']])])]]" 2]
      ok v1 v2 v3 n
    by (simp only: list.pred_inject simp_thms) blast
qed

section \<open>The revert\<close>

lemma foldl_upsert_distinct:
  "distinct (map fst r) \<Longrightarrow>
   foldl upsert m r p =
     (case map_of r p of None \<Rightarrow> m p | Some q \<Rightarrow> if is_zero_text q then None else Some q)"
proof (induction r arbitrary: m)
  case Nil
  then show ?case by simp
next
  case (Cons x r)
  obtain a b where x: "x = (a, b)" by (cases x)
  from Cons.prems have d: "distinct (map fst r)" and a: "a \<notin> fst ` set r" by (auto simp: x)
  from a have none: "map_of r a = None" by (simp add: map_of_eq_None_iff)
  show ?case
    using Cons.IH[OF d, of "upsert m (a, b)"] none
    by (auto simp: x upsert_def split: option.splits)
qed

lemma side_diff_changes_of:
  "side_diff current_book target_book zero_fmt side =
     sort_by_Decimal fst (side \<noteq> Ask)
       (changes_of (book_side current_book side) (book_side target_book side) zero_fmt)"
  by (simp add: side_diff_def changes_of_def Let_def)

lemma changes_keys:
  "map fst (concat (map (\<lambda>(p, q_cur).
        (case map_of tgt p of
           None \<Rightarrow> [(p, z)]
         | Some q_tgt \<Rightarrow> if q_tgt \<noteq> q_cur then [(p, q_tgt)] else [])) cur))
   = filter (\<lambda>p. \<exists>q_cur. (p, q_cur) \<in> set cur \<and> map_of tgt p \<noteq> Some q_cur) (map fst cur)"
  if "distinct (map fst cur)"
  using that
proof (induction cur)
  case Nil
  then show ?case by simp
next
  case (Cons x cur)
  obtain a b where x: "x = (a, b)" by (cases x)
  from Cons.prems have d: "distinct (map fst cur)" and a: "a \<notin> fst ` set cur" by (auto simp: x)
  have same: "filter (\<lambda>p. \<exists>q_cur. (p, q_cur) \<in> set (x # cur) \<and> map_of tgt p \<noteq> Some q_cur) (map fst cur)
      = filter (\<lambda>p. \<exists>q_cur. (p, q_cur) \<in> set cur \<and> map_of tgt p \<noteq> Some q_cur) (map fst cur)"
    using a by (intro filter_cong) (auto simp: x)
  have head: "(\<exists>q_cur. (a, q_cur) \<in> set (x # cur) \<and> map_of tgt a \<noteq> Some q_cur)
      \<longleftrightarrow> map_of tgt a \<noteq> Some b"
    using a by (auto simp: x) (metis fst_conv image_eqI)
  show ?case
    using Cons.IH[OF d] same head
    by (auto simp: x split: option.splits)
qed

lemma changes_of_distinct:
  assumes "distinct (map fst cur)" and "distinct (map fst tgt)"
  shows "distinct (map fst (changes_of cur tgt z))"
proof -
  let ?P = "\<lambda>p. \<exists>q_cur. (p, q_cur) \<in> set cur \<and> map_of tgt p \<noteq> Some q_cur"
  let ?A = "filter (\<lambda>(p, q_tgt). map_of cur p = None) tgt"
  have keys: "map fst (changes_of cur tgt z) = filter ?P (map fst cur) @ map fst ?A"
    unfolding changes_of_def map_append changes_keys[OF assms(1)] ..
  have d1: "distinct (filter ?P (map fst cur))"
    using assms(1) by simp
  have d2: "distinct (map fst ?A)"
    using assms(2) by (rule distinct_map_filter)
  have disj: "set (filter ?P (map fst cur)) \<inter> set (map fst ?A) = {}"
  proof (rule ccontr)
    assume "set (filter ?P (map fst cur)) \<inter> set (map fst ?A) \<noteq> {}"
    then obtain p where p1: "p \<in> set (filter ?P (map fst cur))" and p2: "p \<in> set (map fst ?A)"
      by blast
    from p1 have "p \<in> fst ` set cur" by simp
    moreover from p2 have "map_of cur p = None" by auto
    ultimately show False by (simp add: map_of_eq_None_iff)
  qed
  show ?thesis
    unfolding keys using d1 d2 disj by (simp only: distinct_append simp_thms)
qed

lemma changes_part_set:
  "(p, q) \<in> set (concat (map (\<lambda>(p, q_cur).
        (case map_of tgt p of
           None \<Rightarrow> [(p, z)]
         | Some q_tgt \<Rightarrow> if q_tgt \<noteq> q_cur then [(p, q_tgt)] else [])) cur))
   \<longleftrightarrow> (\<exists>qc. (p, qc) \<in> set cur \<and>
         (map_of tgt p = None \<and> q = z \<or> map_of tgt p = Some q \<and> q \<noteq> qc))"
proof (induction cur)
  case Nil
  then show ?case by simp
next
  case (Cons x cur)
  obtain a b where x: "x = (a, b)" by (cases x)
  have head: "(p, q) \<in> set (case map_of tgt a of
           None \<Rightarrow> [(a, z)]
         | Some q_tgt \<Rightarrow> if q_tgt \<noteq> b then [(a, q_tgt)] else [])
      \<longleftrightarrow> p = a \<and> (map_of tgt p = None \<and> q = z \<or> map_of tgt p = Some q \<and> q \<noteq> b)"
    by (cases "map_of tgt a") auto
  show ?case
    unfolding x using Cons.IH head by (simp only: list.map concat.simps set_append Un_iff
        prod.case set_ConsD list.set insert_iff Pair_inject) blast
qed

lemma changes_of_set:
  assumes "distinct (map fst cur)" and "distinct (map fst tgt)"
  shows "(p, q) \<in> set (changes_of cur tgt z) \<longleftrightarrow>
           (map_of cur p \<noteq> None \<and> map_of tgt p = None \<and> q = z)
         \<or> (map_of tgt p = Some q \<and> map_of cur p \<noteq> Some q)"
proof -
  have c: "(p, qc) \<in> set cur \<longleftrightarrow> map_of cur p = Some qc" for qc
    using assms(1) by simp
  have t: "(p, qt) \<in> set tgt \<longleftrightarrow> map_of tgt p = Some qt" for qt
    using assms(2) by simp
  have add: "(p, q) \<in> set (filter (\<lambda>(p, q_tgt). map_of cur p = None) tgt)
      \<longleftrightarrow> map_of tgt p = Some q \<and> map_of cur p = None"
    using t by simp
  have "(p, q) \<in> set (changes_of cur tgt z) \<longleftrightarrow>
      (\<exists>qc. map_of cur p = Some qc \<and>
         (map_of tgt p = None \<and> q = z \<or> map_of tgt p = Some q \<and> q \<noteq> qc))
      \<or> (map_of tgt p = Some q \<and> map_of cur p = None)"
    unfolding changes_of_def set_append Un_iff changes_part_set add c ..
  also have "\<dots> \<longleftrightarrow> (map_of cur p \<noteq> None \<and> map_of tgt p = None \<and> q = z)
         \<or> (map_of tgt p = Some q \<and> map_of cur p \<noteq> Some q)"
    by (cases "map_of cur p") auto
  finally show ?thesis .
qed


lemma zero_ok_default: "zero_ok ''0.00000000''"
  by (simp add: zero_ok_def is_zero_text_def accepted_def Decimal_zero_fmt)

lemma map_of_Some_iff_set:
  "distinct (map fst xs) \<Longrightarrow> map_of xs p = Some q \<longleftrightarrow> (p, q) \<in> set xs"
  by simp

lemma revert_side:
  assumes cur: "side_ok cur" and tgt: "side_ok tgt"
    and nz: "list_all (\<lambda>l. \<not> is_zero_text (snd l)) tgt"
    and z: "zero_ok z"
  shows "\<exists>r. sort_by_Decimal fst rv (changes_of cur tgt z) = Inr r
           \<and> list_all accepted r
           \<and> map_of (foldl set_level cur r) = map_of tgt
           \<and> distinct (map fst (foldl set_level cur r))"
proof -
  let ?D = "changes_of cur tgt z"
  let ?K = "\<lambda>x. text_position (fst x)"
  let ?r = "if rv then rev (sort_key ?K (rev ?D)) else sort_key ?K ?D"
  from cur tgt have dc: "distinct (map fst cur)" and dt: "distinct (map fst tgt)"
    and okc: "list_all level_ok cur" and okt: "list_all level_ok tgt"
    by (simp_all add: side_ok_def)
  have mem: "(p, q) \<in> set ?D \<longleftrightarrow>
           (map_of cur p \<noteq> None \<and> map_of tgt p = None \<and> q = z)
         \<or> (map_of tgt p = Some q \<and> map_of cur p \<noteq> Some q)" for p q
    by (rule changes_of_set[OF dc dt])
  have price: "\<exists>d. Decimal p = Some d \<and> \<not> is_nan d" if "(p, q) \<in> set ?D" for p q
  proof -
    from that mem have "map_of cur p \<noteq> None \<or> map_of tgt p \<noteq> None" by auto
    then obtain q' where "(p, q') \<in> set cur \<or> (p, q') \<in> set tgt"
      by (auto dest: map_of_SomeD)
    with okc okt have "level_ok (p, q')" by (auto simp: list_all_iff)
    from level_ok_price[OF this] show ?thesis by simp
  qed
  have acc: "accepted (p, q)" if "(p, q) \<in> set ?D" for p q
  proof -
    from price[OF that] have p: "Decimal p \<noteq> None" by auto
    from that mem have "q = z \<or> map_of tgt p = Some q" by auto
    then show ?thesis
    proof
      assume "q = z"
      with z p show ?thesis by (simp add: zero_ok_def accepted_def)
    next
      assume "map_of tgt p = Some q"
      then have "(p, q) \<in> set tgt" by (rule map_of_SomeD)
      with okt have "level_ok (p, q)" by (auto simp: list_all_iff)
      then show ?thesis by (rule level_ok_accepted)
    qed
  qed
  have "\<forall>x\<in>set ?D. \<exists>d. Decimal (fst x) = Some d \<and> \<not> is_nan d"
    using price by auto
  from sort_by_Decimal_ok[OF this, of rv]
  have sorted: "sort_by_Decimal fst rv ?D = Inr ?r" .
  have set_r: "set ?r = set ?D" by simp
  have dist_D: "distinct (map fst ?D)" by (rule changes_of_distinct[OF dc dt])
  have dist_r: "distinct (map fst ?r)"
    using dist_D by (simp add: distinct_map)
  have acc_r: "list_all accepted ?r"
    using acc set_r by (auto simp: list_all_iff)
  have nonzero: "\<not> is_zero_text q" if "map_of tgt p = Some q" for p q
    using map_of_SomeD[OF that] nz by (auto simp: list_all_iff)
  have "map_of (foldl set_level cur ?r) p = map_of tgt p" for p
  proof (cases "map_of ?r p")
    case None
    then have no: "\<And>q. (p, q) \<notin> set ?D"
      using map_of_Some_iff_set[OF dist_r, of p] set_r by (metis option.distinct(1))
    have "map_of cur p = map_of tgt p"
    proof (cases "map_of tgt p")
      case None
      with no mem[of p z] show ?thesis by auto
    next
      case (Some q)
      with no mem[of p q] show ?thesis by auto
    qed
    with None show ?thesis
      by (simp add: map_of_foldl_set_level foldl_upsert_distinct[OF dist_r])
  next
    case (Some q)
    then have "(p, q) \<in> set ?D"
      using map_of_Some_iff_set[OF dist_r, of p q] set_r by simp
    with mem[of p q] have "(map_of tgt p = None \<and> q = z) \<or> map_of tgt p = Some q" by auto
    then show ?thesis
    proof
      assume "map_of tgt p = None \<and> q = z"
      with Some z show ?thesis
        by (simp add: map_of_foldl_set_level foldl_upsert_distinct[OF dist_r] zero_ok_def)
    next
      assume t: "map_of tgt p = Some q"
      with Some nonzero[OF t] show ?thesis
        by (simp add: map_of_foldl_set_level foldl_upsert_distinct[OF dist_r])
    qed
  qed
  then have "map_of (foldl set_level cur ?r) = map_of tgt" by (rule ext)
  moreover have "distinct (map fst (foldl set_level cur ?r))"
  proof -
    have "distinct (map fst d) \<Longrightarrow> distinct (map fst (foldl set_level d ls))" for d ls
      by (induction ls arbitrary: d) (simp_all add: distinct_set_level)
    from this[OF dc] show ?thesis .
  qed
  ultimately show ?thesis using sorted acc_r by blast
qed


lemma generate_revert_update_ok:
  assumes "book_ok cur" and "book_ok tgt"
    and "list_all (\<lambda>l. \<not> is_zero_text (snd l)) (ask tgt)"
    and "list_all (\<lambda>l. \<not> is_zero_text (snd l)) (bid tgt)"
    and "zero_ok z"
  shows "\<exists>rb ra. generate_revert_update cur tgt z
            = Inr (JObj [(''data'', JObj [(''e'', JStr ''depthUpdate''),
                                          (''b'', JList (map level_json rb)),
                                          (''a'', JList (map level_json ra))])])
        \<and> list_all accepted rb \<and> list_all accepted ra
        \<and> map_of (foldl set_level (bid cur) rb) = map_of (bid tgt)
        \<and> map_of (foldl set_level (ask cur) ra) = map_of (ask tgt)
        \<and> distinct (map fst (foldl set_level (bid cur) rb))
        \<and> distinct (map fst (foldl set_level (ask cur) ra))"
proof -
  from assms(1,2) have sides: "side_ok (bid cur)" "side_ok (bid tgt)" "side_ok (ask cur)" "side_ok (ask tgt)"
    by (simp_all add: book_ok_def)
  from revert_side[OF sides(1,2) assms(4,5), of True] obtain rb where
    rb: "side_diff cur tgt z Bid = Inr rb" "list_all accepted rb"
      "map_of (foldl set_level (bid cur) rb) = map_of (bid tgt)"
      "distinct (map fst (foldl set_level (bid cur) rb))"
    by (auto simp: side_diff_changes_of)
  from revert_side[OF sides(3,4) assms(3,5), of False] obtain ra where
    ra: "side_diff cur tgt z Ask = Inr ra" "list_all accepted ra"
      "map_of (foldl set_level (ask cur) ra) = map_of (ask tgt)"
      "distinct (map fst (foldl set_level (ask cur) ra))"
    by (auto simp: side_diff_changes_of)
  have "generate_revert_update cur tgt z
            = Inr (JObj [(''data'', JObj [(''e'', JStr ''depthUpdate''),
                                          (''b'', JList (map level_json rb)),
                                          (''a'', JList (map level_json ra))])])"
    using rb(1) ra(1) by (simp add: generate_revert_update_def)
  with rb(2-) ra(2-) show ?thesis by blast
qed

lemma apply_revert:
  assumes "list_all accepted rb" and "list_all accepted ra"
  shows "depth_event i (JObj [(''data'', JObj [(''e'', JStr ''depthUpdate''),
                                          (''b'', JList (map level_json rb)),
                                          (''a'', JList (map level_json ra))])])
           = Inr [(''a'', JList (map level_json ra)), (''b'', JList (map level_json rb))]"
    and "apply_event book [(''a'', JList (map level_json ra)), (''b'', JList (map level_json rb))]
           = (book\<lparr>bid := foldl set_level (bid book) rb, ask := foldl set_level (ask book) ra\<rparr>, None)"
proof -
  show "depth_event i (JObj [(''data'', JObj [(''e'', JStr ''depthUpdate''),
                                          (''b'', JList (map level_json rb)),
                                          (''a'', JList (map level_json ra))])])
           = Inr [(''a'', JList (map level_json ra)), (''b'', JList (map level_json rb))]"
    by (simp add: depth_event_def dict_get_def Let_def)
  have b: "parse_levels (dict_get [(''a'', JList (map level_json ra)), (''b'', JList (map level_json rb))] ''b'' JNull) ''bids''
           = Inr rb"
    using parse_rows_level_json[OF assms(1), of "''bids''" 0]
    by (simp add: dict_get_def parse_levels_def)
  have a: "parse_levels (dict_get [(''a'', JList (map level_json ra)), (''b'', JList (map level_json rb))] ''a'' JNull) ''asks''
           = Inr ra"
    using parse_rows_level_json[OF assms(2), of "''asks''" 0]
    by (simp add: dict_get_def parse_levels_def)
  from apply_event_ok[OF b a, of book]
  show "apply_event book [(''a'', JList (map level_json ra)), (''b'', JList (map level_json rb))]
           = (book\<lparr>bid := foldl set_level (bid book) rb, ask := foldl set_level (ask book) ra\<rparr>, None)" .
qed

lemma same_levels:
  assumes "distinct (map fst d')" and "distinct (map fst d)" and "map_of d' = map_of d"
  shows "set d' = set d"
  using assms by (simp add: map_of_inject_set)

lemma sorted_side_same:
  assumes d: "side_ok d" and d': "distinct (map fst d')" and eq: "set d' = set d"
    and inj: "inj_on text_position (fst ` set d)"
  shows "sorted_side d' side = sorted_side d side"
proof -
  from d have dd: "distinct (map fst d)" and ok: "list_all level_ok d" by (simp_all add: side_ok_def)
  have ok': "side_ok d'"
    using d' ok eq by (simp add: side_ok_def list_all_iff)
  have dist: "distinct d" "distinct d'"
    using dd d' by (simp_all add: distinct_map)
  have m: "mset d' = mset d"
    using dist eq by (simp add: set_eq_iff_mset_eq_distinct)
  have f: "inj_on fst (set d)"
    using dd by (simp add: distinct_map)
  have "inj_on (text_position \<circ> fst) (set d)"
    using f inj by (rule comp_inj_on)
  then have i: "inj_on (\<lambda>x. text_position (fst x)) (set d)"
    by (simp add: comp_def)
  have i': "inj_on (\<lambda>x. text_position (fst x)) (set d')"
    using i eq by simp
  have s1: "sort_key (\<lambda>x. text_position (fst x)) d' = sort_key (\<lambda>x. text_position (fst x)) d"
    using m i' by (rule sort_key_eq_sort_key)
  have "mset (rev d') = mset (rev d)" using m by simp
  moreover have "inj_on (\<lambda>x. text_position (fst x)) (set (rev d'))" using i' by simp
  ultimately have s2: "sort_key (\<lambda>x. text_position (fst x)) (rev d')
      = sort_key (\<lambda>x. text_position (fst x)) (rev d)"
    by (rule sort_key_eq_sort_key)
  show ?thesis
    by (simp only: sorted_side_ok[OF d] sorted_side_ok[OF ok'] s1 s2)
qed

text \<open>
  C1, amended. Take an initial book of the data model in which no quantity is zero, and
  valid update items. Applying them in order gives a book; the revert from that book to the
  initial one is generated, is read by the update reader as one event, and that event
  applies to the book. The result holds, on each side, exactly the levels of the initial
  book, each price text once. When, on each side of the initial book, no two price texts
  denote the same decimal value, the projection of the result is the projection of the
  initial book.
\<close>

theorem revert_round_trip:
  "book_ok B0 \<and> list_all (\<lambda>l. \<not> is_zero_text (snd l)) (ask B0)
     \<and> list_all (\<lambda>l. \<not> is_zero_text (snd l)) (bid B0) \<and> list_all valid_update items \<longrightarrow>
   (\<exists>Bf revert ev B'. final_loop 0 B0 items = Inr Bf
      \<and> generate_revert_update Bf B0 ''0.00000000'' = Inr revert
      \<and> depth_event 0 revert = Inr ev
      \<and> apply_event Bf ev = (B', None)
      \<and> set (ask B') = set (ask B0) \<and> set (bid B') = set (bid B0)
      \<and> distinct (map fst (ask B')) \<and> distinct (map fst (bid B'))
      \<and> (inj_on text_position (fst ` set (ask B0)) \<and> inj_on text_position (fst ` set (bid B0))
            \<longrightarrow> book_to_levels B' = book_to_levels B0))"
proof
  assume h: "book_ok B0 \<and> list_all (\<lambda>l. \<not> is_zero_text (snd l)) (ask B0)
     \<and> list_all (\<lambda>l. \<not> is_zero_text (snd l)) (bid B0) \<and> list_all valid_update items"
  then have ok0: "book_ok B0" and vs: "list_all valid_update items"
    and nza: "list_all (\<lambda>l. \<not> is_zero_text (snd l)) (ask B0)"
    and nzb: "list_all (\<lambda>l. \<not> is_zero_text (snd l)) (bid B0)" by simp_all
  from final_loop_valid[OF ok0 vs, of 0] obtain Bf where
    fin: "final_loop 0 B0 items = Inr Bf" and okf: "book_ok Bf" by blast
  from generate_revert_update_ok[OF okf ok0 nza nzb zero_ok_default] obtain rb ra where
    rev: "generate_revert_update Bf B0 ''0.00000000''
            = Inr (JObj [(''data'', JObj [(''e'', JStr ''depthUpdate''),
                                          (''b'', JList (map level_json rb)),
                                          (''a'', JList (map level_json ra))])])"
    and acc: "list_all accepted rb" "list_all accepted ra"
    and maps: "map_of (foldl set_level (bid Bf) rb) = map_of (bid B0)"
      "map_of (foldl set_level (ask Bf) ra) = map_of (ask B0)"
    and dist: "distinct (map fst (foldl set_level (bid Bf) rb))"
      "distinct (map fst (foldl set_level (ask Bf) ra))"
    by blast
  let ?B' = "Bf\<lparr>bid := foldl set_level (bid Bf) rb, ask := foldl set_level (ask Bf) ra\<rparr>"
  from ok0 have d0: "distinct (map fst (ask B0))" "distinct (map fst (bid B0))"
    and s0: "side_ok (ask B0)" "side_ok (bid B0)"
    by (simp_all add: book_ok_def side_ok_def)
  have sa: "set (ask ?B') = set (ask B0)"
    using same_levels[OF dist(2) d0(1) maps(2)] by simp
  have sb: "set (bid ?B') = set (bid B0)"
    using same_levels[OF dist(1) d0(2) maps(1)] by simp
  have proj: "book_to_levels ?B' = book_to_levels B0"
    if "inj_on text_position (fst ` set (ask B0)) \<and> inj_on text_position (fst ` set (bid B0))"
  proof -
    have "sorted_side (ask ?B') Ask = sorted_side (ask B0) Ask"
      using that dist(2) sa by (intro sorted_side_same[OF s0(1)]) simp_all
    moreover have "sorted_side (bid ?B') Bid = sorted_side (bid B0) Bid"
      using that dist(1) sb by (intro sorted_side_same[OF s0(2)]) simp_all
    ultimately show ?thesis by (simp only: book_to_levels_def)
  qed
  show "\<exists>Bf revert ev B'. final_loop 0 B0 items = Inr Bf
      \<and> generate_revert_update Bf B0 ''0.00000000'' = Inr revert
      \<and> depth_event 0 revert = Inr ev
      \<and> apply_event Bf ev = (B', None)
      \<and> set (ask B') = set (ask B0) \<and> set (bid B') = set (bid B0)
      \<and> distinct (map fst (ask B')) \<and> distinct (map fst (bid B'))
      \<and> (inj_on text_position (fst ` set (ask B0)) \<and> inj_on text_position (fst ` set (bid B0))
            \<longrightarrow> book_to_levels B' = book_to_levels B0)"
    using fin rev apply_revert(1)[OF acc, of 0] apply_revert(2)[OF acc, of Bf] sa sb dist proj
    by (intro exI[of _ Bf] exI[of _ "JObj [(''data'', JObj [(''e'', JStr ''depthUpdate''),
                                          (''b'', JList (map level_json rb)),
                                          (''a'', JList (map level_json ra))])]"]
        exI[of _ "[(''a'', JList (map level_json ra)), (''b'', JList (map level_json rb))]"]
        exI[of _ ?B']) simp
qed


lemma Decimal_6: "Decimal ''6'' = Some (Finite False 6 0)"
  by (simp add: Decimal_unfold)

lemma Decimal_1_0: "Decimal ''1.0'' = Some (Finite False 10 (- 1))"
  by (simp add: Decimal_unfold)

lemma Decimal_1_00: "Decimal ''1.00'' = Some (Finite False 100 (- 2))"
  by (simp add: Decimal_unfold)

lemma tie_snapshot:
  "book_from_snapshot [(''asks'', JList [JList [JStr ''1.0'', JStr ''5''], JList [JStr ''1.00'', JStr ''6'']])]
   = Inr \<lparr>ask = [(''1.0'', ''5''), (''1.00'', ''6'')], bid = []\<rparr>"
  by (simp add: book_from_snapshot_def new_empty_book_def dict_get_def parse_levels_def
      parse_level_def Decimal_1_0 Decimal_1_00 Decimal_5 Decimal_6)

lemma tie_events:
  "final_loop 0 \<lparr>ask = [(''1.0'', ''5''), (''1.00'', ''6'')], bid = []\<rparr>
     [JObj [(''a'', JList [JList [JStr ''1.0'', JStr ''0'']])]]
   = Inr \<lparr>ask = [(''1.00'', ''6'')], bid = []\<rparr>"
  by (simp add: depth_event_def apply_event_def dict_get_def parse_levels_def parse_level_def
      Decimal_1_0 Decimal_0 Let_def)

lemma tie_revert:
  "generate_revert_update \<lparr>ask = [(''1.00'', ''6'')], bid = []\<rparr>
     \<lparr>ask = [(''1.0'', ''5''), (''1.00'', ''6'')], bid = []\<rparr> ''0.00000000''
   = Inr (JObj [(''data'', JObj [(''e'', JStr ''depthUpdate''), (''b'', JList []),
                                 (''a'', JList [JList [JStr ''1.0'', JStr ''5'']])])])"
  by (simp add: generate_revert_update_def side_diff_def sort_by_Decimal_def level_json_def
      Decimal_1_0)

lemma tie_normalised:
  "depth_event 0 (JObj [(''data'', JObj [(''e'', JStr ''depthUpdate''), (''b'', JList []),
                                 (''a'', JList [JList [JStr ''1.0'', JStr ''5'']])])])
   = Inr [(''a'', JList [JList [JStr ''1.0'', JStr ''5'']]), (''b'', JList [])]"
  by (simp add: depth_event_def dict_get_def Let_def)

lemma tie_applied:
  "apply_event \<lparr>ask = [(''1.00'', ''6'')], bid = []\<rparr>
     [(''a'', JList [JList [JStr ''1.0'', JStr ''5'']]), (''b'', JList [])]
   = (\<lparr>ask = [(''1.00'', ''6''), (''1.0'', ''5'')], bid = []\<rparr>, None)"
  by (simp add: apply_event_def dict_get_def parse_levels_def parse_level_def
      Decimal_1_0 Decimal_5)

lemma tie_projection_after:
  "book_to_levels \<lparr>ask = [(''1.00'', ''6''), (''1.0'', ''5'')], bid = []\<rparr>
   = Inr \<lparr>asks = [(''1.00'', ''6''), (''1.0'', ''5'')], bids = []\<rparr>"
  by (simp add: book_to_levels_def sorted_side_def sort_by_Decimal_def Decimal_1_0 Decimal_1_00)

lemma tie_projection_before:
  "book_to_levels \<lparr>ask = [(''1.0'', ''5''), (''1.00'', ''6'')], bid = []\<rparr>
   = Inr \<lparr>asks = [(''1.0'', ''5''), (''1.00'', ''6'')], bids = []\<rparr>"
  by (simp add: book_to_levels_def sorted_side_def sort_by_Decimal_def Decimal_1_0 Decimal_1_00)

lemma zero_events:
  "final_loop 0 \<lparr>ask = [(''100.5'', ''0'')], bid = []\<rparr>
     [JObj [(''a'', JList [JList [JStr ''100.5'', JStr ''1'']])]]
   = Inr \<lparr>ask = [(''100.5'', ''1'')], bid = []\<rparr>"
  by (simp add: depth_event_def apply_event_def dict_get_def parse_levels_def parse_level_def
      Decimal_100_5 Decimal_1 Let_def)

lemma zero_revert:
  "generate_revert_update \<lparr>ask = [(''100.5'', ''1'')], bid = []\<rparr>
     \<lparr>ask = [(''100.5'', ''0'')], bid = []\<rparr> ''0.00000000''
   = Inr (JObj [(''data'', JObj [(''e'', JStr ''depthUpdate''), (''b'', JList []),
                                 (''a'', JList [JList [JStr ''100.5'', JStr ''0'']])])])"
  by (simp add: generate_revert_update_def side_diff_def sort_by_Decimal_def level_json_def
      Decimal_100_5)

lemma zero_normalised:
  "depth_event 0 (JObj [(''data'', JObj [(''e'', JStr ''depthUpdate''), (''b'', JList []),
                                 (''a'', JList [JList [JStr ''100.5'', JStr ''0'']])])])
   = Inr [(''a'', JList [JList [JStr ''100.5'', JStr ''0'']]), (''b'', JList [])]"
  by (simp add: depth_event_def dict_get_def Let_def)

lemma zero_applied:
  "apply_event \<lparr>ask = [(''100.5'', ''1'')], bid = []\<rparr>
     [(''a'', JList [JList [JStr ''100.5'', JStr ''0'']]), (''b'', JList [])]
   = (\<lparr>ask = [], bid = []\<rparr>, None)"
  by (simp add: apply_event_def dict_get_def parse_levels_def parse_level_def
      Decimal_100_5 Decimal_0)

lemma zero_projection_after:
  "book_to_levels \<lparr>ask = [], bid = []\<rparr> = Inr \<lparr>asks = [], bids = []\<rparr>"
  by (simp add: book_to_levels_def sorted_side_def sort_by_Decimal_def)

lemma zero_projection_before:
  "book_to_levels \<lparr>ask = [(''100.5'', ''0'')], bid = []\<rparr>
   = Inr \<lparr>asks = [(''100.5'', ''0'')], bids = []\<rparr>"
  by (simp add: book_to_levels_def sorted_side_def sort_by_Decimal_def Decimal_100_5)

text \<open>
  C1, as stated, fails in two ways. First, the snapshot with the asks 1.0 and 1.00 (two
  texts of one decimal value, two levels of the book): after the update that removes 1.0,
  the revert puts 1.0 back behind 1.00, and the stable sort of the projection keeps that
  order, so the projection lists 1.00 before 1.0 where the one of the snapshot lists 1.0
  before 1.00. Second, the snapshot with an ask at quantity 0: after the update that sets
  the ask to 1, the revert entry with the quantity 0 of the snapshot is applied as a
  removal, and the level of the snapshot is missing from the projection.
\<close>

theorem revert_round_trip_counterexample:
  "(book_from_snapshot [(''asks'', JList [JList [JStr ''1.0'', JStr ''5''], JList [JStr ''1.00'', JStr ''6'']])]
      = Inr \<lparr>ask = [(''1.0'', ''5''), (''1.00'', ''6'')], bid = []\<rparr>
    \<and> final_loop 0 \<lparr>ask = [(''1.0'', ''5''), (''1.00'', ''6'')], bid = []\<rparr>
        [JObj [(''a'', JList [JList [JStr ''1.0'', JStr ''0'']])]]
      = Inr \<lparr>ask = [(''1.00'', ''6'')], bid = []\<rparr>
    \<and> generate_revert_update \<lparr>ask = [(''1.00'', ''6'')], bid = []\<rparr>
        \<lparr>ask = [(''1.0'', ''5''), (''1.00'', ''6'')], bid = []\<rparr> ''0.00000000''
      = Inr (JObj [(''data'', JObj [(''e'', JStr ''depthUpdate''), (''b'', JList []),
                                    (''a'', JList [JList [JStr ''1.0'', JStr ''5'']])])])
    \<and> depth_event 0 (JObj [(''data'', JObj [(''e'', JStr ''depthUpdate''), (''b'', JList []),
                                    (''a'', JList [JList [JStr ''1.0'', JStr ''5'']])])])
      = Inr [(''a'', JList [JList [JStr ''1.0'', JStr ''5'']]), (''b'', JList [])]
    \<and> apply_event \<lparr>ask = [(''1.00'', ''6'')], bid = []\<rparr>
        [(''a'', JList [JList [JStr ''1.0'', JStr ''5'']]), (''b'', JList [])]
      = (\<lparr>ask = [(''1.00'', ''6''), (''1.0'', ''5'')], bid = []\<rparr>, None)
    \<and> book_to_levels \<lparr>ask = [(''1.00'', ''6''), (''1.0'', ''5'')], bid = []\<rparr>
      = Inr \<lparr>asks = [(''1.00'', ''6''), (''1.0'', ''5'')], bids = []\<rparr>
    \<and> book_to_levels \<lparr>ask = [(''1.0'', ''5''), (''1.00'', ''6'')], bid = []\<rparr>
      = Inr \<lparr>asks = [(''1.0'', ''5''), (''1.00'', ''6'')], bids = []\<rparr>
    \<and> book_to_levels \<lparr>ask = [(''1.00'', ''6''), (''1.0'', ''5'')], bid = []\<rparr>
      \<noteq> book_to_levels \<lparr>ask = [(''1.0'', ''5''), (''1.00'', ''6'')], bid = []\<rparr>)
   \<and> (book_from_snapshot [(''asks'', JList [JList [JStr ''100.5'', JStr ''0'']]), (''bids'', JList [])]
      = Inr \<lparr>ask = [(''100.5'', ''0'')], bid = []\<rparr>
    \<and> final_loop 0 \<lparr>ask = [(''100.5'', ''0'')], bid = []\<rparr>
        [JObj [(''a'', JList [JList [JStr ''100.5'', JStr ''1'']])]]
      = Inr \<lparr>ask = [(''100.5'', ''1'')], bid = []\<rparr>
    \<and> generate_revert_update \<lparr>ask = [(''100.5'', ''1'')], bid = []\<rparr>
        \<lparr>ask = [(''100.5'', ''0'')], bid = []\<rparr> ''0.00000000''
      = Inr (JObj [(''data'', JObj [(''e'', JStr ''depthUpdate''), (''b'', JList []),
                                    (''a'', JList [JList [JStr ''100.5'', JStr ''0'']])])])
    \<and> depth_event 0 (JObj [(''data'', JObj [(''e'', JStr ''depthUpdate''), (''b'', JList []),
                                    (''a'', JList [JList [JStr ''100.5'', JStr ''0'']])])])
      = Inr [(''a'', JList [JList [JStr ''100.5'', JStr ''0'']]), (''b'', JList [])]
    \<and> apply_event \<lparr>ask = [(''100.5'', ''1'')], bid = []\<rparr>
        [(''a'', JList [JList [JStr ''100.5'', JStr ''0'']]), (''b'', JList [])]
      = (\<lparr>ask = [], bid = []\<rparr>, None)
    \<and> book_to_levels \<lparr>ask = [], bid = []\<rparr> = Inr \<lparr>asks = [], bids = []\<rparr>
    \<and> book_to_levels \<lparr>ask = [(''100.5'', ''0'')], bid = []\<rparr>
      = Inr \<lparr>asks = [(''100.5'', ''0'')], bids = []\<rparr>
    \<and> book_to_levels \<lparr>ask = [], bid = []\<rparr>
      \<noteq> book_to_levels \<lparr>ask = [(''100.5'', ''0'')], bid = []\<rparr>)"
proof -
  have snap0: "book_from_snapshot [(''asks'', JList [JList [JStr ''100.5'', JStr ''0'']]), (''bids'', JList [])]
      = Inr \<lparr>ask = [(''100.5'', ''0'')], bid = []\<rparr>"
    by (simp add: book_from_snapshot_def new_empty_book_def dict_get_def parse_levels_def
        parse_level_def Decimal_100_5 Decimal_0)
  have tie_differs: "book_to_levels \<lparr>ask = [(''1.00'', ''6''), (''1.0'', ''5'')], bid = []\<rparr>
      \<noteq> book_to_levels \<lparr>ask = [(''1.0'', ''5''), (''1.00'', ''6'')], bid = []\<rparr>"
    by (simp add: tie_projection_after tie_projection_before)
  have zero_differs: "book_to_levels \<lparr>ask = [], bid = []\<rparr>
      \<noteq> book_to_levels \<lparr>ask = [(''100.5'', ''0'')], bid = []\<rparr>"
    by (simp add: zero_projection_after zero_projection_before)
  show ?thesis
    by (intro conjI tie_snapshot tie_events tie_revert tie_normalised tie_applied
        tie_projection_after tie_projection_before tie_differs snap0 zero_events zero_revert
        zero_normalised zero_applied zero_projection_after zero_projection_before zero_differs)
qed

theorem revert_round_trip_witness:
  "\<exists>Bf revert ev B'.
      final_loop 0 \<lparr>ask = [(''100.5'', ''2'')], bid = [(''100.0'', ''3'')]\<rparr>
        [JObj [(''b'', JList [JList [JStr ''100.0'', JStr ''0'']]),
               (''a'', JList [JList [JStr ''100.5'', JStr ''5''], JList [JStr ''101.0'', JStr ''1'']])]]
        = Inr Bf
      \<and> generate_revert_update Bf \<lparr>ask = [(''100.5'', ''2'')], bid = [(''100.0'', ''3'')]\<rparr>
          ''0.00000000'' = Inr revert
      \<and> depth_event 0 revert = Inr ev
      \<and> apply_event Bf ev = (B', None)
      \<and> book_to_levels B' = Inr \<lparr>asks = [(''100.5'', ''2'')], bids = [(''100.0'', ''3'')]\<rparr>"
proof -
  let ?B0 = "\<lparr>ask = [(''100.5'', ''2'')], bid = [(''100.0'', ''3'')]\<rparr>"
  let ?items = "[JObj [(''b'', JList [JList [JStr ''100.0'', JStr ''0'']]),
               (''a'', JList [JList [JStr ''100.5'', JStr ''5''], JList [JStr ''101.0'', JStr ''1'']])]]"
  have ok: "book_ok ?B0"
    by (simp add: book_ok_def side_ok_def level_ok_def Decimal_literals)
  have nz: "list_all (\<lambda>l. \<not> is_zero_text (snd l)) (ask ?B0)"
    "list_all (\<lambda>l. \<not> is_zero_text (snd l)) (bid ?B0)"
    by (simp_all add: is_zero_text_def Decimal_literals)
  have v: "list_all valid_update ?items"
    by (simp add: valid_update_def depth_event_def dict_get_def parse_levels_def parse_level_def
        level_ok_def Decimal_literals Let_def)
  have inj: "inj_on text_position (fst ` set (ask ?B0))" "inj_on text_position (fst ` set (bid ?B0))"
    by simp_all
  have proj: "book_to_levels ?B0 = Inr \<lparr>asks = [(''100.5'', ''2'')], bids = [(''100.0'', ''3'')]\<rparr>"
    by (simp add: book_to_levels_def sorted_side_def sort_by_Decimal_def Decimal_literals)
  from revert_round_trip[of ?B0 ?items] ok nz v inj proj
  show ?thesis by (simp only: simp_thms) blast
qed

section \<open>The run on the store\<close>

lemma str_items_dict: "str_items (map (\<lambda>(p, q). (p, VStr q)) d) = Some d"
  by (induction d) auto

lemma dict_at_is_side: "is_side h a d \<Longrightarrow> dict_at h a = Some d"
  by (simp add: is_side_def dict_at_def dict_obj_def str_items_dict)

lemma book_refs_is_book: "is_book h r bk a b \<Longrightarrow> book_refs h r = Some (a, b)"
  by (simp add: is_book_def book_refs_def)

lemma read_book_is_book:
  assumes "is_book h r bk a b"
  shows "read_book h r = Some bk"
proof -
  from assms have "dict_at h a = Some (ask bk)" "dict_at h b = Some (bid bk)"
    by (simp_all add: is_book_def dict_at_is_side)
  with book_refs_is_book[OF assms] show ?thesis
    by (simp add: read_book_def)
qed

lemma obj_at_update:
  "obj_at (h[x := ob]) y = (if y = x \<and> x < length h then Some ob else obj_at h y)"
  by (simp add: obj_at_def)

lemma obj_at_append: "obj_at h y = Some ob \<Longrightarrow> obj_at (h @ ext) y = Some ob"
  by (auto simp: obj_at_def nth_append split: if_splits)

lemma obj_at_new: "obj_at (h @ [ob]) (length h) = Some ob"
  by (simp add: obj_at_def)

lemma obj_at_bound: "obj_at h y = Some ob \<Longrightarrow> y < length h"
  by (simp add: obj_at_def split: if_splits)

lemma is_side_update:
  "is_side h a d \<Longrightarrow> x \<noteq> a \<Longrightarrow> is_side (h[x := ob]) a d"
  by (simp add: is_side_def obj_at_update)

lemma is_side_write:
  "a < length h \<Longrightarrow> is_side (h[a := dict_obj d]) a d"
  by (simp add: is_side_def obj_at_update)

lemma is_side_bound: "is_side h a d \<Longrightarrow> a < length h"
  by (auto simp: is_side_def dest: obj_at_bound)

lemma apply_event_store_sim:
  assumes bk: "is_book h book bk a b" and ne: "a \<noteq> b" "book \<noteq> a" "book \<noteq> b"
    and ap: "apply_event bk ev = (bk', err)"
  shows "\<exists>h'. apply_event_store h book ev = (h', err) \<and> length h' = length h
           \<and> (\<forall>x. x \<noteq> a \<and> x \<noteq> b \<longrightarrow> obj_at h' x = obj_at h x)
           \<and> is_book h' book bk' a b"
proof -
  from bk have root: "obj_at h book = Some (ODict [(''ask'', VRef a), (''bid'', VRef b)])"
    and sa: "is_side h a (ask bk)" and sb: "is_side h b (bid bk)"
    by (simp_all add: is_book_def)
  note refs = book_refs_is_book[OF bk]
  note la = is_side_bound[OF sa] and lb = is_side_bound[OF sb]
  show ?thesis
  proof (cases "parse_levels (dict_get ev ''b'' JNull) ''bids''")
    case (Inl e)
    with ap have "bk' = bk" "err = Some e" by (simp_all add: apply_event_def)
    with Inl bk show ?thesis by (simp add: apply_event_store_def)
  next
    case b: (Inr bs)
    obtain bd' e1 where al: "apply_levels (bid bk) bs = (bd', e1)" by (cases "apply_levels (bid bk) bs")
    let ?h1 = "h[b := dict_obj bd']"
    have root1: "obj_at ?h1 book = Some (ODict [(''ask'', VRef a), (''bid'', VRef b)])"
      using root ne by (simp add: obj_at_update)
    have sa1: "is_side ?h1 a (ask bk)" using sa ne by (simp add: is_side_update)
    have sb1: "is_side ?h1 b bd'" using lb by (rule is_side_write)
    have fr1: "\<forall>x. x \<noteq> a \<and> x \<noteq> b \<longrightarrow> obj_at ?h1 x = obj_at h x"
      by (simp add: obj_at_update)
    show ?thesis
    proof (cases e1)
      case (Some e)
      with ap b al have "bk' = bk\<lparr>bid := bd'\<rparr>" "err = Some e" by (simp_all add: apply_event_def)
      moreover have "apply_event_store h book ev = (?h1, Some e)"
        using b refs dict_at_is_side[OF sb] al Some by (simp add: apply_event_store_def)
      ultimately show ?thesis
        using root1 sa1 sb1 fr1 by (simp add: is_book_def)
    next
      case None
      show ?thesis
      proof (cases "parse_levels (dict_get ev ''a'' JNull) ''asks''")
        case (Inl e)
        with ap b al None have "bk' = bk\<lparr>bid := bd'\<rparr>" "err = Some e"
          by (simp_all add: apply_event_def)
        moreover have "apply_event_store h book ev = (?h1, Some e)"
          using b refs dict_at_is_side[OF sb] al None Inl by (simp add: apply_event_store_def)
        ultimately show ?thesis
          using root1 sa1 sb1 fr1 by (simp add: is_book_def)
      next
        case a: (Inr as)
        obtain ad' e2 where al2: "apply_levels (ask bk) as = (ad', e2)"
          by (cases "apply_levels (ask bk) as")
        let ?h2 = "?h1[a := dict_obj ad']"
        from ap b al None a al2 have res: "bk' = bk\<lparr>bid := bd', ask := ad'\<rparr>" "err = e2"
          by (simp_all add: apply_event_def)
        have run: "apply_event_store h book ev = (?h2, e2)"
          using b refs dict_at_is_side[OF sb] al None a dict_at_is_side[OF sa1] al2
          by (simp add: apply_event_store_def)
        have root2: "obj_at ?h2 book = Some (ODict [(''ask'', VRef a), (''bid'', VRef b)])"
          using root1 ne by (simp add: obj_at_update)
        have sa2: "is_side ?h2 a ad'" using la by (intro is_side_write) simp
        have sb2: "is_side ?h2 b bd'" using is_side_update[OF sb1, of a "dict_obj ad'"] ne by simp
        have fr2: "\<forall>x. x \<noteq> a \<and> x \<noteq> b \<longrightarrow> obj_at ?h2 x = obj_at h x"
          by (simp add: obj_at_update)
        show ?thesis
          using run res root2 sa2 sb2 fr2 by (simp add: is_book_def)
      qed
    qed
  qed
qed


lemma obj_at_old: "x < length h \<Longrightarrow> obj_at (h @ ext) x = obj_at h x"
  by (simp add: obj_at_def nth_append)

lemma obj_at_nth: "obj_at h x = Some ob \<Longrightarrow> h ! x = ob"
  by (simp add: obj_at_def split: if_splits)

lemma alloc_rows_eq:
  "alloc_rows h ls = (h @ map (\<lambda>pq. OList [VStr (fst pq), VStr (snd pq)]) ls,
                      map VRef [length h..<length h + length ls])"
proof (induction ls arbitrary: h)
  case Nil
  then show ?case by simp
next
  case (Cons pq ls)
  obtain p q where pq: "pq = (p, q)" by (cases pq)
  have "[length h..<Suc (length h + length ls)]
        = length h # [Suc (length h)..<Suc (length h + length ls)]"
    by (rule upt_conv_Cons) simp
  then show ?case
    using Cons.IH[of "h @ [OList [VStr p, VStr q]]"] by (simp add: pq alloc_def del: upt_Suc)
qed

lemma alloc_list_eq:
  "alloc_list h ls =
     (h @ map (\<lambda>pq. OList [VStr (fst pq), VStr (snd pq)]) ls
        @ [OList (map VRef [length h..<length h + length ls])],
      length h + length ls)"
  by (simp add: alloc_list_def alloc_rows_eq alloc_def)

lemma alloc_list_rows:
  assumes "alloc_list h ls = (h', l)"
  shows "\<exists>ext rs. h' = h @ ext \<and> is_rows h' l ls rs
           \<and> (\<forall>x\<in>set (l # rs). length h \<le> x \<and> x < length h')"
proof -
  let ?rows = "map (\<lambda>pq. OList [VStr (fst pq), VStr (snd pq)]) ls"
  let ?rs = "[length h..<length h + length ls]"
  from assms have h': "h' = h @ ?rows @ [OList (map VRef ?rs)]" and l: "l = length h + length ls"
    unfolding alloc_list_eq by blast+
  have top: "obj_at h' l = Some (OList (map VRef ?rs))"
    unfolding h' l obj_at_def by (simp add: nth_append)
  have row: "obj_at h' (?rs ! i) = Some (OList [VStr (fst (ls ! i)), VStr (snd (ls ! i))])"
    if "i < length ls" for i
    using that unfolding h' obj_at_def by (simp add: nth_append)
  have "list_all2 (\<lambda>r pq. obj_at h' r = Some (OList [VStr (fst pq), VStr (snd pq)])) ?rs ls"
    using row by (simp add: list_all2_conv_all_nth)
  with top have "is_rows h' l ls ?rs" by (simp add: is_rows_def)
  moreover have "\<forall>x\<in>set (l # ?rs). length h \<le> x \<and> x < length h'"
    unfolding h' l by auto
  ultimately show ?thesis using h' by blast
qed

lemma is_rows_stable:
  assumes "is_rows h l ls rs" and "\<forall>x\<in>set (l # rs). obj_at h' x = obj_at h x"
  shows "is_rows h' l ls rs"
proof -
  from assms(1) have top: "obj_at h l = Some (OList (map VRef rs))"
    and rows: "list_all2 (\<lambda>r pq. obj_at h r = Some (OList [VStr (fst pq), VStr (snd pq)])) rs ls"
    by (simp_all add: is_rows_def)
  have "list_all2 (\<lambda>r pq. obj_at h' r = Some (OList [VStr (fst pq), VStr (snd pq)])) rs ls"
    using rows assms(2) by (auto simp: list_all2_conv_all_nth)
  with top assms(2) show ?thesis by (simp add: is_rows_def)
qed

lemma is_rows_bound:
  assumes "is_rows h l ls rs"
  shows "\<forall>x\<in>set (l # rs). x < length h"
proof
  fix x assume x: "x \<in> set (l # rs)"
  from assms have top: "obj_at h l = Some (OList (map VRef rs))"
    and rows: "list_all2 (\<lambda>r pq. obj_at h r = Some (OList [VStr (fst pq), VStr (snd pq)])) rs ls"
    by (simp_all add: is_rows_def)
  show "x < length h"
  proof (cases "x = l")
    case True
    with top show ?thesis by (simp add: obj_at_bound)
  next
    case False
    with x obtain i where i: "i < length rs" "x = rs ! i"
      by (auto simp: in_set_conv_nth)
    from rows i have "obj_at h x = Some (OList [VStr (fst (ls ! i)), VStr (snd (ls ! i))])"
      by (simp add: list_all2_conv_all_nth)
    then show ?thesis by (rule obj_at_bound)
  qed
qed

lemma is_levels_stable:
  assumes "is_levels h r st fp" and "\<forall>x\<in>set fp. obj_at h' x = obj_at h x"
  shows "is_levels h' r st fp"
proof -
  from assms(1) obtain la lb ra rb where
    root: "obj_at h r = Some (ODict [(''asks'', VRef la), (''bids'', VRef lb)])"
    and a: "is_rows h la (asks st) ra" and b: "is_rows h lb (bids st) rb"
    and fp: "fp = r # la # lb # ra @ rb"
    by (auto simp: is_levels_def)
  have "is_rows h' la (asks st) ra"
  proof (rule is_rows_stable[OF a])
    show "\<forall>x\<in>set (la # ra). obj_at h' x = obj_at h x"
      using assms(2) unfolding fp by simp
  qed
  moreover have "is_rows h' lb (bids st) rb"
  proof (rule is_rows_stable[OF b])
    show "\<forall>x\<in>set (lb # rb). obj_at h' x = obj_at h x"
      using assms(2) unfolding fp by simp
  qed
  moreover have "obj_at h' r = Some (ODict [(''asks'', VRef la), (''bids'', VRef lb)])"
    using root assms(2) by (simp add: fp)
  ultimately show ?thesis using fp by (auto simp: is_levels_def)
qed

lemma is_levels_bound:
  assumes "is_levels h r st fp"
  shows "\<forall>x\<in>set fp. x < length h"
proof -
  from assms obtain la lb ra rb where
    root: "obj_at h r = Some (ODict [(''asks'', VRef la), (''bids'', VRef lb)])"
    and a: "is_rows h la (asks st) ra" and b: "is_rows h lb (bids st) rb"
    and fp: "fp = r # la # lb # ra @ rb"
    by (auto simp: is_levels_def)
  from is_rows_bound[OF a] is_rows_bound[OF b] obj_at_bound[OF root]
  show ?thesis unfolding fp by auto
qed

lemma is_book_stable:
  assumes "is_book h r bk a b" and "\<forall>x\<in>{r, a, b}. obj_at h' x = obj_at h x"
  shows "is_book h' r bk a b"
  using assms by (simp add: is_book_def is_side_def)

lemma is_book_bound: "is_book h r bk a b \<Longrightarrow> r < length h \<and> a < length h \<and> b < length h"
  by (auto simp: is_book_def is_side_def dest: obj_at_bound)

lemma reach_closed:
  assumes "r \<in> S" and "\<forall>x\<in>S. x < length h \<longrightarrow> set (refs_of (h ! x)) \<subseteq> S"
  shows "reach h r \<subseteq> S"
proof
  fix y assume "y \<in> reach h r"
  then show "y \<in> S"
    by (induction rule: reach.induct) (use assms in auto)
qed

lemma refs_of_dict_obj: "refs_of (dict_obj d) = []"
  by (induction d) (auto simp: dict_obj_def)

lemma refs_of_refs: "refs_of (OList (map VRef rs)) = rs"
  by (induction rs) auto

lemma reach_rows:
  assumes "is_rows h l ls rs" and "x \<in> set (l # rs)"
  shows "set (refs_of (h ! x)) \<subseteq> set (l # rs)"
proof (cases "x = l")
  case True
  with assms(1) have "h ! x = OList (map VRef rs)"
    by (simp add: is_rows_def obj_at_nth)
  then show ?thesis by (auto simp only: refs_of_refs list.set)
next
  case False
  with assms(2) obtain i where i: "i < length rs" "x = rs ! i"
    by (auto simp: in_set_conv_nth)
  from assms(1) have "list_all2 (\<lambda>r pq. obj_at h r = Some (OList [VStr (fst pq), VStr (snd pq)])) rs ls"
    by (simp add: is_rows_def)
  with i have "obj_at h x = Some (OList [VStr (fst (ls ! i)), VStr (snd (ls ! i))])"
    by (simp add: list_all2_conv_all_nth)
  then have "h ! x = OList [VStr (fst (ls ! i)), VStr (snd (ls ! i))]"
    by (rule obj_at_nth)
  then show ?thesis by simp
qed

lemma reach_levels:
  assumes "is_levels h r st fp"
  shows "reach h r \<subseteq> set fp"
proof -
  from assms obtain la lb ra rb where
    root: "obj_at h r = Some (ODict [(''asks'', VRef la), (''bids'', VRef lb)])"
    and a: "is_rows h la (asks st) ra" and b: "is_rows h lb (bids st) rb"
    and fp: "fp = r # la # lb # ra @ rb"
    by (auto simp: is_levels_def)
  have "set (refs_of (h ! x)) \<subseteq> set fp" if "x \<in> set fp" for x
  proof -
    from that fp consider "x = r" | "x \<in> set (la # ra)" | "x \<in> set (lb # rb)" by auto
    then show ?thesis
    proof cases
      case 1
      with root have "h ! x = ODict [(''asks'', VRef la), (''bids'', VRef lb)]"
        by (simp add: obj_at_nth)
      then show ?thesis by (simp add: fp)
    next
      case 2
      from reach_rows[OF a this] show ?thesis by (auto simp: fp)
    next
      case 3
      from reach_rows[OF b this] show ?thesis by (auto simp: fp)
    qed
  qed
  then show ?thesis
    by (intro reach_closed) (auto simp: fp)
qed

lemma reach_book:
  assumes "is_book h r bk a b"
  shows "reach h r \<subseteq> {r, a, b}"
proof -
  from assms have "h ! r = ODict [(''ask'', VRef a), (''bid'', VRef b)]"
    "h ! a = dict_obj (ask bk)" "h ! b = dict_obj (bid bk)"
    by (simp_all add: is_book_def is_side_def obj_at_nth)
  then show ?thesis
    by (intro reach_closed) (auto simp: refs_of_dict_obj)
qed

lemma unchanged_except_refl: "unchanged_except S h h"
  by (simp add: unchanged_except_def)

lemma unchanged_except_trans:
  "unchanged_except S h h1 \<Longrightarrow> unchanged_except S h1 h2 \<Longrightarrow> unchanged_except S h h2"
  by (auto simp: unchanged_except_def)

lemma unchanged_except_mono:
  "unchanged_except S h h' \<Longrightarrow> S \<subseteq> T \<Longrightarrow> unchanged_except T h h'"
  by (auto simp: unchanged_except_def)

lemma unchanged_except_append: "unchanged_except S h (h @ ext)"
  by (simp add: unchanged_except_def obj_at_old)

lemma unchanged_except_update: "x \<in> S \<Longrightarrow> unchanged_except S h (h[x := ob])"
  by (auto simp: unchanged_except_def obj_at_update)

lemma is_side_append: "is_side h a d \<Longrightarrow> is_side (h @ ext) a d"
  by (simp add: is_side_def obj_at_append)

lemma is_book_append: "is_book h r bk a b \<Longrightarrow> is_book (h @ ext) r bk a b"
  by (simp add: is_book_def is_side_append obj_at_append)

lemma is_rows_append:
  assumes "is_rows h l ls rs"
  shows "is_rows (h @ ext) l ls rs"
proof (rule is_rows_stable[OF assms])
  show "\<forall>x\<in>set (l # rs). obj_at (h @ ext) x = obj_at h x"
    using is_rows_bound[OF assms] by (simp add: obj_at_old)
qed

lemma is_levels_append:
  assumes "is_levels h r st fp"
  shows "is_levels (h @ ext) r st fp"
proof (rule is_levels_stable[OF assms])
  show "\<forall>x\<in>set fp. obj_at (h @ ext) x = obj_at h x"
    using is_levels_bound[OF assms] by (simp add: obj_at_old)
qed

lemma book_to_levels_sides:
  "book_to_levels bk = Inr st \<Longrightarrow>
   sorted_side (ask bk) Ask = Inr (asks st) \<and> sorted_side (bid bk) Bid = Inr (bids st)"
  by (auto simp: book_to_levels_def split: sum.splits)

lemma book_to_levels_store_sim:
  assumes bk: "is_book h book bk a b" and st: "book_to_levels bk = Inr st"
  shows "\<exists>ext r fp. book_to_levels_store h book = Inr (h @ ext, r)
           \<and> is_levels (h @ ext) r st fp \<and> (\<forall>x\<in>set fp. length h \<le> x)"
proof -
  from bk have sa: "is_side h a (ask bk)" and sb: "is_side h b (bid bk)"
    by (simp_all add: is_book_def)
  from book_to_levels_sides[OF st]
  have ssa: "sorted_side (ask bk) Ask = Inr (asks st)"
    and ssb: "sorted_side (bid bk) Bid = Inr (bids st)" by simp_all
  obtain h1 la where al1: "alloc_list h (asks st) = (h1, la)" by (cases "alloc_list h (asks st)")
  from alloc_list_rows[OF al1] obtain ext1 ra where
    h1: "h1 = h @ ext1" and ra: "is_rows h1 la (asks st) ra"
    and fa: "\<forall>x\<in>set (la # ra). length h \<le> x \<and> x < length h1" by blast
  obtain h2 lb where al2: "alloc_list h1 (bids st) = (h2, lb)" by (cases "alloc_list h1 (bids st)")
  from alloc_list_rows[OF al2] obtain ext2 rb where
    h2: "h2 = h1 @ ext2" and rb: "is_rows h2 lb (bids st) rb"
    and fb: "\<forall>x\<in>set (lb # rb). length h1 \<le> x \<and> x < length h2" by blast
  let ?root = "ODict [(''asks'', VRef la), (''bids'', VRef lb)]"
  let ?h3 = "h2 @ [?root]"
  let ?fp = "length h2 # la # lb # ra @ rb"
  have sb1: "dict_at h1 b = Some (bid bk)"
    using is_side_append[OF sb, of ext1] by (simp add: h1 dict_at_is_side)
  have run: "book_to_levels_store h book = Inr (?h3, length h2)"
    using book_refs_is_book[OF bk] dict_at_is_side[OF sa] ssa al1 sb1 ssb al2
    by (simp add: book_to_levels_store_def alloc_def)
  have ra3: "is_rows ?h3 la (asks st) ra"
    using is_rows_append[OF is_rows_append[OF ra, of ext2], of "[?root]"] by (simp add: h2)
  have rb3: "is_rows ?h3 lb (bids st) rb"
    using is_rows_append[OF rb, of "[?root]"] by simp
  have "is_levels ?h3 (length h2) st ?fp"
    using ra3 rb3 by (auto simp: is_levels_def obj_at_new)
  moreover have "\<forall>x\<in>set ?fp. length h \<le> x"
    using fa fb by (auto simp: h1 h2)
  moreover have "?h3 = h @ (ext1 @ ext2 @ [?root])" by (simp add: h1 h2)
  ultimately show ?thesis using run by metis
qed

lemma copy_book_sim:
  assumes "is_book h r bk a b"
  shows "\<exists>ext r' a' b'. copy_book h r = Inr (h @ ext, r') \<and> is_book (h @ ext) r' bk a' b'
           \<and> length h \<le> a' \<and> length h \<le> b' \<and> length h \<le> r' \<and> distinct [a', b', r']"
proof -
  from assms have sa: "is_side h a (ask bk)" and sb: "is_side h b (bid bk)"
    by (simp_all add: is_book_def)
  let ?h1 = "h @ [dict_obj (ask bk)]"
  let ?h2 = "?h1 @ [dict_obj (bid bk)]"
  let ?root = "ODict [(''ask'', VRef (length h)), (''bid'', VRef (Suc (length h)))]"
  let ?h3 = "?h2 @ [?root]"
  have sb1: "dict_at ?h1 b = Some (bid bk)"
    using is_side_append[OF sb, of "[dict_obj (ask bk)]"] by (simp add: dict_at_is_side)
  have run: "copy_book h r = Inr (?h3, Suc (Suc (length h)))"
    using book_refs_is_book[OF assms] dict_at_is_side[OF sa] sb1
    by (simp add: copy_book_def alloc_def)
  have "is_book ?h3 (Suc (Suc (length h))) bk (length h) (Suc (length h))"
    by (simp add: is_book_def is_side_def obj_at_def nth_append)
  moreover have "?h3 = h @ [dict_obj (ask bk), dict_obj (bid bk), ?root]" by simp
  ultimately show ?thesis using run
    by (intro exI[of _ "[dict_obj (ask bk), dict_obj (bid bk), ?root]"]
        exI[of _ "Suc (Suc (length h))"] exI[of _ "length h"] exI[of _ "Suc (length h)"]) simp
qed

lemma run_inv_apply:
  assumes inv: "run_inv n0 h book a b states bk rs sts"
    and ap: "apply_event bk ev = (bk', err)"
  shows "\<exists>h'. apply_event_store h book ev = (h', err)
           \<and> run_inv n0 h' book a b states bk' rs sts
           \<and> unchanged_except {a, b} h h'"
proof -
  from inv have bk: "is_book h book bk a b" and d: "distinct [a, b, book, states]"
    and lo: "n0 \<le> a" "n0 \<le> b" "n0 \<le> book" "n0 \<le> states"
    and s: "obj_at h states = Some (OList (map VRef rs))"
    and ps: "list_all2 (\<lambda>r st. \<exists>fp. is_levels h r st fp
                               \<and> set fp \<inter> {a, b, book, states} = {}
                               \<and> (\<forall>x\<in>set fp. n0 \<le> x)) rs sts"
    by (simp_all add: run_inv_def)
  from d have ne: "a \<noteq> b" "book \<noteq> a" "book \<noteq> b" "states \<noteq> a" "states \<noteq> b" by auto
  from apply_event_store_sim[OF bk ne(1-3) ap] obtain h' where
    run: "apply_event_store h book ev = (h', err)" and len: "length h' = length h"
    and fr: "\<forall>x. x \<noteq> a \<and> x \<noteq> b \<longrightarrow> obj_at h' x = obj_at h x"
    and bk': "is_book h' book bk' a b" by blast
  have s': "obj_at h' states = Some (OList (map VRef rs))"
    using s fr ne by simp
  have keep: "\<exists>fp. is_levels h' r st fp \<and> set fp \<inter> {a, b, book, states} = {}
                               \<and> (\<forall>x\<in>set fp. n0 \<le> x)"
    if "\<exists>fp. is_levels h r st fp \<and> set fp \<inter> {a, b, book, states} = {}
                               \<and> (\<forall>x\<in>set fp. n0 \<le> x)" for r st
  proof -
    from that obtain fp where fp: "is_levels h r st fp" "set fp \<inter> {a, b, book, states} = {}"
      "\<forall>x\<in>set fp. n0 \<le> x" by blast
    have "\<forall>x\<in>set fp. obj_at h' x = obj_at h x"
      using fp(2) fr by auto
    from is_levels_stable[OF fp(1) this] fp(2,3) show ?thesis by blast
  qed
  have ps': "list_all2 (\<lambda>r st. \<exists>fp. is_levels h' r st fp
                               \<and> set fp \<inter> {a, b, book, states} = {}
                               \<and> (\<forall>x\<in>set fp. n0 \<le> x)) rs sts"
    using ps keep by (rule list_all2_mono)
  have "run_inv n0 h' book a b states bk' rs sts"
    using bk' d lo s' ps' by (simp add: run_inv_def)
  moreover have "unchanged_except {a, b} h h'"
    using len fr by (simp add: unchanged_except_def)
  ultimately show ?thesis using run by blast
qed

lemma run_inv_capture:
  assumes inv: "run_inv n0 h book a b states bk rs sts"
    and st: "book_to_levels bk = Inr st"
  shows "\<exists>h1 r h2. book_to_levels_store h book = Inr (h1, r)
           \<and> append_store h1 states (VRef r) = Inr h2
           \<and> run_inv n0 h2 book a b states bk (rs @ [r]) (sts @ [st])
           \<and> unchanged_except {states} h h2"
proof -
  from inv have bk: "is_book h book bk a b" and d: "distinct [a, b, book, states]"
    and lo: "n0 \<le> a" "n0 \<le> b" "n0 \<le> book" "n0 \<le> states"
    and s: "obj_at h states = Some (OList (map VRef rs))"
    and ps: "list_all2 (\<lambda>r st. \<exists>fp. is_levels h r st fp
                               \<and> set fp \<inter> {a, b, book, states} = {}
                               \<and> (\<forall>x\<in>set fp. n0 \<le> x)) rs sts"
    by (simp_all add: run_inv_def)
  from d have ne: "states \<noteq> a" "states \<noteq> b" "states \<noteq> book" by auto
  from is_book_bound[OF bk] obj_at_bound[OF s]
  have bound: "book < length h" "a < length h" "b < length h" "states < length h" by simp_all
  from book_to_levels_store_sim[OF bk st] obtain ext r fp where
    run: "book_to_levels_store h book = Inr (h @ ext, r)"
    and lv: "is_levels (h @ ext) r st fp" and fresh: "\<forall>x\<in>set fp. length h \<le> x" by blast
  let ?h1 = "h @ ext"
  let ?h2 = "?h1[states := OList (map VRef (rs @ [r]))]"
  have s1: "obj_at ?h1 states = Some (OList (map VRef rs))"
    using s by (rule obj_at_append)
  then have app: "append_store ?h1 states (VRef r) = Inr ?h2"
    by (simp add: append_store_def)
  have other: "obj_at ?h2 x = obj_at h x" if "x < length h" "x \<noteq> states" for x
    using that by (simp add: obj_at_update obj_at_old)
  have bk2: "is_book ?h2 book bk a b"
  proof (rule is_book_stable[OF is_book_append[OF bk, of ext]])
    show "\<forall>x\<in>{book, a, b}. obj_at ?h2 x = obj_at ?h1 x"
      using ne by (auto simp: obj_at_update)
  qed
  have s2: "obj_at ?h2 states = Some (OList (map VRef (rs @ [r])))"
    using bound by (simp add: obj_at_update)
  have nofp: "states \<notin> set fp" "set fp \<inter> {a, b, book, states} = {}"
    using fresh bound by auto
  have new: "\<exists>fp. is_levels ?h2 r st fp \<and> set fp \<inter> {a, b, book, states} = {}
                               \<and> (\<forall>x\<in>set fp. n0 \<le> x)"
  proof -
    have "\<forall>x\<in>set fp. obj_at ?h2 x = obj_at ?h1 x"
      using nofp(1) by (auto simp: obj_at_update)
    from is_levels_stable[OF lv this] have "is_levels ?h2 r st fp" .
    moreover have "\<forall>x\<in>set fp. n0 \<le> x"
      using fresh lo(1) bound(2) by auto
    ultimately show ?thesis using nofp(2) by blast
  qed
  have keep: "\<exists>fp. is_levels ?h2 r' st' fp \<and> set fp \<inter> {a, b, book, states} = {}
                               \<and> (\<forall>x\<in>set fp. n0 \<le> x)"
    if "\<exists>fp. is_levels h r' st' fp \<and> set fp \<inter> {a, b, book, states} = {}
                               \<and> (\<forall>x\<in>set fp. n0 \<le> x)" for r' st'
  proof -
    from that obtain fp' where fp': "is_levels h r' st' fp'"
      "set fp' \<inter> {a, b, book, states} = {}" "\<forall>x\<in>set fp'. n0 \<le> x" by blast
    have "\<forall>x\<in>set fp'. obj_at ?h2 x = obj_at h x"
      using fp'(2) is_levels_bound[OF fp'(1)] other by auto
    from is_levels_stable[OF fp'(1) this] fp'(2,3) show ?thesis by blast
  qed
  have old: "list_all2 (\<lambda>r st. \<exists>fp. is_levels ?h2 r st fp
                               \<and> set fp \<inter> {a, b, book, states} = {}
                               \<and> (\<forall>x\<in>set fp. n0 \<le> x)) rs sts"
    using ps keep by (rule list_all2_mono)
  have all: "list_all2 (\<lambda>r st. \<exists>fp. is_levels ?h2 r st fp
                               \<and> set fp \<inter> {a, b, book, states} = {}
                               \<and> (\<forall>x\<in>set fp. n0 \<le> x)) (rs @ [r]) (sts @ [st])"
    using old new by (simp add: list_all2_appendI)
  have "run_inv n0 ?h2 book a b states bk (rs @ [r]) (sts @ [st])"
    using bk2 d lo s2 all by (simp add: run_inv_def)
  moreover have "unchanged_except {states} h ?h2"
    using other by (simp add: unchanged_except_def)
  ultimately show ?thesis using run app by blast
qed

lemma final_loop_store_sim:
  assumes "run_inv n0 h book a b states bk rs sts"
    and "final_loop i bk items = Inr bk'"
  shows "\<exists>h'. final_loop_store i h book items = Inr h'
           \<and> run_inv n0 h' book a b states bk' rs sts
           \<and> unchanged_except {a, b, states} h h'"
  using assms
proof (induction items arbitrary: i h bk)
  case Nil
  then show ?case by (simp add: unchanged_except_refl)
next
  case (Cons item items)
  from Cons.prems(2) obtain ev where ev: "depth_event i item = Inr ev"
    by (auto split: sum.splits)
  from Cons.prems(2) ev obtain bk1 where ap: "apply_event bk ev = (bk1, None)"
    by (auto split: prod.splits option.splits)
  from Cons.prems(2) ev ap have rest: "final_loop (Suc i) bk1 items = Inr bk'" by simp
  from run_inv_apply[OF Cons.prems(1) ap] obtain h1 where
    st1: "apply_event_store h book ev = (h1, None)"
    and inv1: "run_inv n0 h1 book a b states bk1 rs sts"
    and fr1: "unchanged_except {a, b} h h1" by blast
  from Cons.IH[OF inv1 rest] obtain h' where
    run: "final_loop_store (Suc i) h1 book items = Inr h'"
    and inv': "run_inv n0 h' book a b states bk' rs sts"
    and fr': "unchanged_except {a, b, states} h1 h'" by blast
  have "unchanged_except {a, b, states} h h'"
    using unchanged_except_mono[OF fr1, of "{a, b, states}"] fr'
    by (auto intro: unchanged_except_trans)
  with ev st1 run inv' show ?case by simp
qed

lemma stride_loop_store_sim:
  assumes "run_inv n0 h book a b states bk rs sts"
    and "stride_loop k n bk sts items = Inr (sts', bk')"
  shows "\<exists>h' rs'. stride_loop_store k n h book states items = Inr h'
           \<and> run_inv n0 h' book a b states bk' rs' sts'
           \<and> unchanged_except {a, b, states} h h'"
  using assms
proof (induction items arbitrary: n h bk rs sts)
  case Nil
  then show ?case by (auto simp: unchanged_except_refl)
next
  case (Cons item items)
  from Cons.prems(2) obtain ev where ev: "depth_event n item = Inr ev"
    by (auto split: sum.splits)
  from Cons.prems(2) ev obtain bk1 where ap: "apply_event bk ev = (bk1, None)"
    by (auto split: prod.splits option.splits)
  from run_inv_apply[OF Cons.prems(1) ap] obtain h1 where
    st1: "apply_event_store h book ev = (h1, None)"
    and inv1: "run_inv n0 h1 book a b states bk1 rs sts"
    and fr1: "unchanged_except {a, b} h h1" by blast
  have fr1': "unchanged_except {a, b, states} h h1"
    using unchanged_except_mono[OF fr1, of "{a, b, states}"] by auto
  show ?case
  proof (cases "int (Suc n) mod max 1 k = 0")
    case True
    from Cons.prems(2) ev ap True obtain st where st: "book_to_levels bk1 = Inr st"
      and rest: "stride_loop k (Suc n) bk1 (sts @ [st]) items = Inr (sts', bk')"
      by (auto simp del: of_nat_Suc split: sum.splits)
    from run_inv_capture[OF inv1 st] obtain h2 r h3 where
      cap: "book_to_levels_store h1 book = Inr (h2, r)"
      and app: "append_store h2 states (VRef r) = Inr h3"
      and inv3: "run_inv n0 h3 book a b states bk1 (rs @ [r]) (sts @ [st])"
      and fr3: "unchanged_except {states} h1 h3" by blast
    from Cons.IH[OF inv3 rest] obtain h' rs' where
      run: "stride_loop_store k (Suc n) h3 book states items = Inr h'"
      and inv': "run_inv n0 h' book a b states bk' rs' sts'"
      and fr': "unchanged_except {a, b, states} h3 h'" by blast
    have "unchanged_except {a, b, states} h1 h3"
      using unchanged_except_mono[OF fr3, of "{a, b, states}"] by auto
    with fr1' fr' have "unchanged_except {a, b, states} h h'"
      by (blast intro: unchanged_except_trans)
    moreover have "stride_loop_store k n h book states (item # items) = Inr h'"
      using ev st1 True cap app run by (simp del: of_nat_Suc)
    ultimately show ?thesis using inv' by blast
  next
    case False
    from Cons.prems(2) ev ap False
    have rest: "stride_loop k (Suc n) bk1 sts items = Inr (sts', bk')"
      by (simp del: of_nat_Suc)
    from Cons.IH[OF inv1 rest] obtain h' rs' where
      run: "stride_loop_store k (Suc n) h1 book states items = Inr h'"
      and inv': "run_inv n0 h' book a b states bk' rs' sts'"
      and fr': "unchanged_except {a, b, states} h1 h'" by blast
    from fr1' fr' have "unchanged_except {a, b, states} h h'"
      by (blast intro: unchanged_except_trans)
    moreover have "stride_loop_store k n h book states (item # items) = Inr h'"
      using ev st1 False run by (simp del: of_nat_Suc)
    ultimately show ?thesis using inv' by blast
  qed
qed

lemma unchanged_fresh:
  assumes "unchanged_except S (h @ ext) h'" and "\<forall>x\<in>S. length h \<le> x"
  shows "unchanged_except {} h h'"
proof -
  from assms(1) have len: "length (h @ ext) \<le> length h'"
    and same: "\<And>x. x < length (h @ ext) \<Longrightarrow> x \<notin> S \<Longrightarrow> obj_at h' x = obj_at (h @ ext) x"
    by (simp_all add: unchanged_except_def)
  have "obj_at h' x = obj_at h x" if "x < length h" for x
  proof -
    from that assms(2) have "x \<notin> S" by auto
    with same[of x] that have "obj_at h' x = obj_at (h @ ext) x" by simp
    with that show ?thesis by (simp add: obj_at_old)
  qed
  with len show ?thesis by (simp add: unchanged_except_def)
qed

lemma main_apply_updates_store_sim:
  assumes bk0: "is_book h initial bk0 a0 b0"
    and pure: "main_apply_updates bk0 (JList items) final k = Inr (sts, bk)"
  shows "\<exists>h' states book a b rs.
           main_apply_updates_store h initial (JList items) final k = Inr (h', states, book)
           \<and> run_inv (length h) h' book a b states bk rs sts
           \<and> unchanged_except {} h h'"
proof -
  from copy_book_sim[OF bk0] obtain ext book a b where
    cp: "copy_book h initial = Inr (h @ ext, book)"
    and bk3: "is_book (h @ ext) book bk0 a b"
    and lo: "length h \<le> a" "length h \<le> b" "length h \<le> book"
    and d: "distinct [a, b, book]" by blast
  define states where "states = length (h @ ext)"
  define h4 where "h4 = (h @ ext) @ [OList []]"
  from is_book_bound[OF bk3] have bound: "book < states" "a < states" "b < states"
    by (simp_all add: states_def)
  have "obj_at ((h @ ext) @ [OList []]) (length (h @ ext)) = Some (OList [])"
    by (rule obj_at_new)
  then have s4: "obj_at h4 states = Some (OList (map VRef []))"
    by (simp only: h4_def states_def list.map)
  have bk4: "is_book h4 book bk0 a b"
    unfolding h4_def by (rule is_book_append[OF bk3])
  have lo4: "length h \<le> states" by (simp add: states_def)
  have inv4: "run_inv (length h) h4 book a b states bk0 [] []"
    using bk4 d lo lo4 bound s4 by (auto simp: run_inv_def)
  have fresh: "\<forall>x\<in>{a, b, states}. length h \<le> x"
    using lo lo4 by simp
  have h4: "h4 = h @ (ext @ [OList []])" by (simp add: h4_def)
  have al: "alloc (h @ ext) (OList []) = (h4, states)"
    by (simp add: alloc_def h4_def states_def)
  show ?thesis
  proof (cases final)
    case True
    from pure True obtain st where fin: "final_loop 0 bk0 items = Inr bk"
      and st: "book_to_levels bk = Inr st" and sts: "sts = [st]"
      by (auto simp: main_apply_updates_final split: sum.splits)
    from final_loop_store_sim[OF inv4 fin] obtain h5 where
      run: "final_loop_store 0 h4 book items = Inr h5"
      and inv5: "run_inv (length h) h5 book a b states bk [] []"
      and fr5: "unchanged_except {a, b, states} h4 h5" by blast
    from run_inv_capture[OF inv5 st] obtain h6 r h7 where
      cap: "book_to_levels_store h5 book = Inr (h6, r)"
      and app: "append_store h6 states (VRef r) = Inr h7"
      and inv7: "run_inv (length h) h7 book a b states bk [r] [st]"
      and fr7: "unchanged_except {states} h5 h7" by auto
    have "unchanged_except {a, b, states} h5 h7"
      using unchanged_except_mono[OF fr7, of "{a, b, states}"] by auto
    with fr5 have "unchanged_except {a, b, states} h4 h7"
      by (blast intro: unchanged_except_trans)
    then have "unchanged_except {a, b, states} (h @ (ext @ [OList []])) h7"
      by (simp only: h4)
    from unchanged_fresh[OF this fresh] have fr: "unchanged_except {} h h7" .
    have "main_apply_updates_store h initial (JList items) final k = Inr (h7, states, book)"
      using cp True run cap app al by (simp add: main_apply_updates_store_def)
    with inv7 fr sts show ?thesis by blast
  next
    case False
    from pure False have loop: "stride_loop k 0 bk0 [] items = Inr (sts, bk)"
      by (simp add: main_apply_updates_stride)
    from stride_loop_store_sim[OF inv4 loop] obtain h5 rs where
      run: "stride_loop_store k 0 h4 book states items = Inr h5"
      and inv5: "run_inv (length h) h5 book a b states bk rs sts"
      and fr5: "unchanged_except {a, b, states} h4 h5" by blast
    from fr5 have "unchanged_except {a, b, states} (h @ (ext @ [OList []])) h5"
      by (simp only: h4)
    from unchanged_fresh[OF this fresh] have fr: "unchanged_except {} h h5" .
    have "main_apply_updates_store h initial (JList items) final k = Inr (h5, states, book)"
      using cp False run al by (simp add: main_apply_updates_store_def)
    with inv5 fr show ?thesis by blast
  qed
qed

lemma generate_revert_update_store_sim:
  assumes cur: "is_book h cur bkc ac bc" and tgt: "is_book h tgt bkt a2 b2"
    and rb: "side_diff bkc bkt z Bid = Inr rb" and ra: "side_diff bkc bkt z Ask = Inr ra"
  shows "\<exists>ext r fp. generate_revert_update_store h cur tgt z = Inr (h @ ext, r)
           \<and> is_revert (h @ ext) r rb ra fp \<and> (\<forall>x\<in>set fp. length h \<le> x)"
proof -
  obtain h1 lb where al1: "alloc_list h rb = (h1, lb)" by (cases "alloc_list h rb")
  from alloc_list_rows[OF al1] obtain ext1 rsb where
    h1: "h1 = h @ ext1" and rowsb: "is_rows h1 lb rb rsb"
    and fb: "\<forall>x\<in>set (lb # rsb). length h \<le> x \<and> x < length h1" by blast
  obtain h2 la where al2: "alloc_list h1 ra = (h2, la)" by (cases "alloc_list h1 ra")
  from alloc_list_rows[OF al2] obtain ext2 rsa where
    h2: "h2 = h1 @ ext2" and rowsa: "is_rows h2 la ra rsa"
    and fa: "\<forall>x\<in>set (la # rsa). length h1 \<le> x \<and> x < length h2" by blast
  let ?inner = "ODict [(''e'', VStr ''depthUpdate''), (''b'', VRef lb), (''a'', VRef la)]"
  let ?outer = "ODict [(''data'', VRef (length h2))]"
  define h4 where "h4 = h2 @ [?inner, ?outer]"
  define fp where "fp = Suc (length h2) # length h2 # lb # la # rsb @ rsa"
  have run: "generate_revert_update_store h cur tgt z = Inr (h4, Suc (length h2))"
    using read_book_is_book[OF cur] read_book_is_book[OF tgt] rb ra al1 al2
    by (simp add: generate_revert_update_store_def alloc_def h4_def)
  have rb2: "is_rows h2 lb rb rsb"
    unfolding h2 by (rule is_rows_append[OF rowsb])
  have rb4: "is_rows h4 lb rb rsb"
    unfolding h4_def by (rule is_rows_append[OF rb2])
  have ra4: "is_rows h4 la ra rsa"
    unfolding h4_def by (rule is_rows_append[OF rowsa])
  have o1: "obj_at h4 (Suc (length h2)) = Some ?outer"
    by (simp add: obj_at_def h4_def nth_append)
  have o2: "obj_at h4 (length h2) = Some ?inner"
    by (simp add: obj_at_def h4_def nth_append)
  have "is_revert h4 (Suc (length h2)) rb ra fp"
    unfolding is_revert_def fp_def using o1 o2 rb4 ra4 by blast
  moreover have "\<forall>x\<in>set fp. length h \<le> x"
    using fa fb by (auto simp: fp_def h1 h2)
  moreover have "h4 = h @ (ext1 @ ext2 @ [?inner, ?outer])"
    by (simp add: h4_def h1 h2)
  ultimately show ?thesis using run by metis
qed

lemma reach_revert:
  assumes "is_revert h r bs as fp"
  shows "reach h r \<subseteq> set fp"
proof -
  from assms obtain inner lb la rb ra where
    root: "obj_at h r = Some (ODict [(''data'', VRef inner)])"
    and inn: "obj_at h inner = Some (ODict [(''e'', VStr ''depthUpdate''),
                                          (''b'', VRef lb), (''a'', VRef la)])"
    and b: "is_rows h lb bs rb" and a: "is_rows h la as ra"
    and fp: "fp = r # inner # lb # la # rb @ ra"
    by (auto simp: is_revert_def)
  have "set (refs_of (h ! x)) \<subseteq> set fp" if "x \<in> set fp" for x
  proof -
    from that fp consider "x = r" | "x = inner" | "x \<in> set (lb # rb)" | "x \<in> set (la # ra)"
      by auto
    then show ?thesis
    proof cases
      case 1
      with root have "h ! x = ODict [(''data'', VRef inner)]" by (simp add: obj_at_nth)
      then show ?thesis by (simp add: fp)
    next
      case 2
      with inn have "h ! x = ODict [(''e'', VStr ''depthUpdate''), (''b'', VRef lb), (''a'', VRef la)]"
        by (simp add: obj_at_nth)
      then show ?thesis by (simp add: fp)
    next
      case 3
      from reach_rows[OF b this] show ?thesis by (auto simp: fp)
    next
      case 4
      from reach_rows[OF a this] show ?thesis by (auto simp: fp)
    qed
  qed
  then show ?thesis
    by (intro reach_closed) (auto simp: fp)
qed

lemma side_diff_ok:
  assumes cur: "side_ok (book_side bkc s)" and tgt: "side_ok (book_side bkt s)"
  shows "\<exists>r. side_diff bkc bkt z s = Inr r"
proof -
  let ?cur = "book_side bkc s" and ?tgt = "book_side bkt s"
  let ?D = "changes_of ?cur ?tgt z"
  from cur tgt have dc: "distinct (map fst ?cur)" and dt: "distinct (map fst ?tgt)"
    and okc: "list_all level_ok ?cur" and okt: "list_all level_ok ?tgt"
    by (simp_all add: side_ok_def)
  have "\<exists>d. Decimal (fst x) = Some d \<and> \<not> is_nan d" if "x \<in> set ?D" for x
  proof -
    obtain p q where x: "x = (p, q)" by (cases x)
    from that x changes_of_set[OF dc dt, of p q z]
    have "map_of ?cur p \<noteq> None \<or> map_of ?tgt p \<noteq> None" by auto
    then obtain q' where "(p, q') \<in> set ?cur \<or> (p, q') \<in> set ?tgt"
      by (auto dest: map_of_SomeD)
    with okc okt have "level_ok (p, q')" by (auto simp: list_all_iff)
    from level_ok_price[OF this] x show ?thesis by simp
  qed
  then have "\<forall>x\<in>set ?D. \<exists>d. Decimal (fst x) = Some d \<and> \<not> is_nan d" by blast
  from sort_by_Decimal_ok[OF this] show ?thesis
    by (simp add: side_diff_changes_of)
qed

lemma generate_revert_update_valid:
  assumes "book_ok bkc" and "book_ok bkt"
  shows "\<exists>rb ra. side_diff bkc bkt z Bid = Inr rb \<and> side_diff bkc bkt z Ask = Inr ra
           \<and> generate_revert_update bkc bkt z
               = Inr (JObj [(''data'', JObj [(''e'', JStr ''depthUpdate''),
                                             (''b'', JList (map level_json rb)),
                                             (''a'', JList (map level_json ra))])])"
proof -
  from assms have "side_ok (book_side bkc Bid)" "side_ok (book_side bkt Bid)"
    "side_ok (book_side bkc Ask)" "side_ok (book_side bkt Ask)"
    by (simp_all add: book_ok_def)
  from side_diff_ok[OF this(1,2), of z] side_diff_ok[OF this(3,4), of z]
  obtain rb ra where "side_diff bkc bkt z Bid = Inr rb" "side_diff bkc bkt z Ask = Inr ra"
    by blast
  then show ?thesis by (simp add: generate_revert_update_def)
qed

lemma main_apply_updates_valid:
  assumes "book_ok bk0" and "list_all valid_update items"
  shows "\<exists>sts bk. main_apply_updates bk0 (JList items) final k = Inr (sts, bk) \<and> book_ok bk"
proof (cases final)
  case True
  from final_loop_valid[OF assms, of 0] obtain bk where
    fin: "final_loop 0 bk0 items = Inr bk" and ok: "book_ok bk" by blast
  from book_to_levels_valid[OF ok] obtain st where "book_to_levels bk = Inr st" by blast
  with fin ok True show ?thesis by (simp add: main_apply_updates_final)
next
  case False
  from stride_loop_valid[OF assms, of k 0 "[]"] obtain new bk where
    "stride_loop k 0 bk0 [] items = Inr (new, bk)" "book_ok bk" by auto
  with False show ?thesis by (simp add: main_apply_updates_stride)
qed

lemma is_book_unchanged:
  assumes "is_book h r bk a b" and "unchanged_except {} h h'"
  shows "is_book h' r bk a b"
proof (rule is_book_stable[OF assms(1)])
  show "\<forall>x\<in>{r, a, b}. obj_at h' x = obj_at h x"
    using is_book_bound[OF assms(1)] assms(2) by (simp add: unchanged_except_def)
qed

text \<open>
  C9. Take a store that holds an initial book of the data model, and valid update items.
  The run (work copy, update loop, final projection, revert) succeeds. Every object the
  store held before the run is in the store after it exactly as it was, so the initial
  book still holds the same two sides; the run wrote only to objects it allocated. The
  working book is a dict of its own with two side dicts of its own, none reachable from
  the initial book, and it holds the book computed by the value-level model. The list
  \<open>states\<close> refers to one projection object per stored state of the value-level model,
  each made of objects allocated by the run and holding that state as it was when stored;
  nothing reachable from a projection is reachable from the working book. The same holds
  of the revert object, which holds the revert computed by the value-level model.
\<close>

theorem main_store_frame:
  "is_book h initial bk0 a0 b0 \<and> book_ok bk0 \<and> list_all valid_update items \<longrightarrow>
   (\<exists>h' states book revert a b bk sts rs rvb rva fpr.
        main_store h initial (JList items) final k = Inr (h', states, book, revert)
      \<and> unchanged_except {} h h'
      \<and> is_book h' initial bk0 a0 b0
      \<and> main_apply_updates bk0 (JList items) final k = Inr (sts, bk)
      \<and> is_book h' book bk a b
      \<and> reach h' book \<inter> reach h' initial = {}
      \<and> obj_at h' states = Some (OList (map VRef rs))
      \<and> list_all2 (\<lambda>r st. \<exists>fp. is_levels h' r st fp \<and> (\<forall>x\<in>set fp. length h \<le> x)) rs sts
      \<and> (\<forall>r\<in>set rs. reach h' r \<inter> reach h' book = {})
      \<and> generate_revert_update bk bk0 ''0.00000000''
          = Inr (JObj [(''data'', JObj [(''e'', JStr ''depthUpdate''),
                                        (''b'', JList (map level_json rvb)),
                                        (''a'', JList (map level_json rva))])])
      \<and> is_revert h' revert rvb rva fpr \<and> (\<forall>x\<in>set fpr. length h \<le> x)
      \<and> reach h' revert \<inter> reach h' book = {})"
proof
  assume hyp: "is_book h initial bk0 a0 b0 \<and> book_ok bk0 \<and> list_all valid_update items"
  then have init: "is_book h initial bk0 a0 b0" and ok0: "book_ok bk0"
    and vs: "list_all valid_update items" by simp_all
  from main_apply_updates_valid[OF ok0 vs, of final k] obtain sts bk where
    pure: "main_apply_updates bk0 (JList items) final k = Inr (sts, bk)" and ok: "book_ok bk"
    by blast
  from main_apply_updates_store_sim[OF init pure] obtain h1 states book a b rs where
    run1: "main_apply_updates_store h initial (JList items) final k = Inr (h1, states, book)"
    and inv: "run_inv (length h) h1 book a b states bk rs sts"
    and fr1: "unchanged_except {} h h1" by blast
  from inv have bk1: "is_book h1 book bk a b" and d: "distinct [a, b, book, states]"
    and lo: "length h \<le> a" "length h \<le> b" "length h \<le> book" "length h \<le> states"
    and s1: "obj_at h1 states = Some (OList (map VRef rs))"
    and ps: "list_all2 (\<lambda>r st. \<exists>fp. is_levels h1 r st fp
                               \<and> set fp \<inter> {a, b, book, states} = {}
                               \<and> (\<forall>x\<in>set fp. length h \<le> x)) rs sts"
    by (simp_all add: run_inv_def)
  from book_to_levels_valid[OF ok] obtain stf where stf: "book_to_levels bk = Inr stf" by blast
  from book_to_levels_store_sim[OF bk1 stf] obtain ext2 final_levels where
    run2: "book_to_levels_store h1 book = Inr (h1 @ ext2, final_levels)" by blast
  define h2 where "h2 = h1 @ ext2"
  have bk2: "is_book h2 book bk a b" unfolding h2_def by (rule is_book_append[OF bk1])
  from copy_book_sim[OF bk2] obtain ext3 cur ac bc where
    run3: "copy_book h2 book = Inr (h2 @ ext3, cur)"
    and cur3: "is_book (h2 @ ext3) cur bk ac bc" by blast
  define h3 where "h3 = h2 @ ext3"
  have init1: "is_book h1 initial bk0 a0 b0" by (rule is_book_unchanged[OF init fr1])
  have init3: "is_book h3 initial bk0 a0 b0"
    unfolding h3_def h2_def by (intro is_book_append init1)
  from copy_book_sim[OF init3] obtain ext4 tgt a2 b2 where
    run4: "copy_book h3 initial = Inr (h3 @ ext4, tgt)"
    and tgt4: "is_book (h3 @ ext4) tgt bk0 a2 b2" by blast
  define h4 where "h4 = h3 @ ext4"
  have cur4: "is_book h4 cur bk ac bc"
    unfolding h4_def h3_def by (rule is_book_append[OF cur3])
  from generate_revert_update_valid[OF ok ok0, of "''0.00000000''"] obtain rvb rva where
    rb: "side_diff bk bk0 ''0.00000000'' Bid = Inr rvb"
    and ra: "side_diff bk bk0 ''0.00000000'' Ask = Inr rva"
    and rev: "generate_revert_update bk bk0 ''0.00000000''
          = Inr (JObj [(''data'', JObj [(''e'', JStr ''depthUpdate''),
                                        (''b'', JList (map level_json rvb)),
                                        (''a'', JList (map level_json rva))])])"
    by blast
  have tgt4': "is_book h4 tgt bk0 a2 b2" using tgt4 by (simp add: h4_def)
  from generate_revert_update_store_sim[OF cur4 tgt4' rb ra] obtain ext5 revert fpr where
    run5: "generate_revert_update_store h4 cur tgt ''0.00000000'' = Inr (h4 @ ext5, revert)"
    and rv5: "is_revert (h4 @ ext5) revert rvb rva fpr"
    and fresh5: "\<forall>x\<in>set fpr. length h4 \<le> x" by blast
  define h5 where "h5 = h4 @ ext5"
  have h5: "h5 = h1 @ (ext2 @ ext3 @ ext4 @ ext5)"
    by (simp add: h5_def h4_def h3_def h2_def)
  have run: "main_store h initial (JList items) final k = Inr (h5, states, book, revert)"
    using run1 run2 run3 run4 run5
    by (simp add: main_store_def h2_def[symmetric] h3_def[symmetric] h4_def[symmetric]
        h5_def[symmetric])
  have len15: "length h1 \<le> length h4" by (simp add: h4_def h3_def h2_def)
  have fr5: "unchanged_except {} h h5"
    using fr1 unchanged_except_append[of "{}" h1 "ext2 @ ext3 @ ext4 @ ext5"]
    unfolding h5 by (rule unchanged_except_trans)
  have init5: "is_book h5 initial bk0 a0 b0" by (rule is_book_unchanged[OF init fr5])
  have bk5: "is_book h5 book bk a b" unfolding h5 by (rule is_book_append[OF bk1])
  have s5: "obj_at h5 states = Some (OList (map VRef rs))"
    unfolding h5 by (rule obj_at_append[OF s1])
  have keep: "\<exists>fp. is_levels h5 r st fp \<and> set fp \<inter> {a, b, book, states} = {}
                               \<and> (\<forall>x\<in>set fp. length h \<le> x)"
    if "\<exists>fp. is_levels h1 r st fp \<and> set fp \<inter> {a, b, book, states} = {}
                               \<and> (\<forall>x\<in>set fp. length h \<le> x)" for r st
    using that is_levels_append[of h1 r st _ "ext2 @ ext3 @ ext4 @ ext5"] unfolding h5 by blast
  have ps5: "list_all2 (\<lambda>r st. \<exists>fp. is_levels h5 r st fp
                               \<and> set fp \<inter> {a, b, book, states} = {}
                               \<and> (\<forall>x\<in>set fp. length h \<le> x)) rs sts"
    using ps keep by (rule list_all2_mono)
  have ps5': "list_all2 (\<lambda>r st. \<exists>fp. is_levels h5 r st fp \<and> (\<forall>x\<in>set fp. length h \<le> x)) rs sts"
    using ps5 by (rule list_all2_mono) blast
  have rbook: "reach h5 book \<subseteq> {book, a, b}" by (rule reach_book[OF bk5])
  have rinit: "reach h5 initial \<subseteq> {initial, a0, b0}" by (rule reach_book[OF init5])
  from is_book_bound[OF init] have "initial < length h" "a0 < length h" "b0 < length h"
    by simp_all
  with lo have "{book, a, b} \<inter> {initial, a0, b0} = {}" by auto
  with rbook rinit have sep0: "reach h5 book \<inter> reach h5 initial = {}" by blast
  have sep1: "\<forall>r\<in>set rs. reach h5 r \<inter> reach h5 book = {}"
  proof
    fix r assume "r \<in> set rs"
    then obtain i where i: "i < length rs" "r = rs ! i" by (auto simp: in_set_conv_nth)
    with ps5 obtain fp where fp: "is_levels h5 r (sts ! i) fp"
      "set fp \<inter> {a, b, book, states} = {}"
      by (auto simp: list_all2_conv_all_nth)
    from fp(2) have "set fp \<inter> {book, a, b} = {}" by blast
    with reach_levels[OF fp(1)] rbook show "reach h5 r \<inter> reach h5 book = {}" by blast
  qed
  have rv5': "is_revert h5 revert rvb rva fpr" using rv5 by (simp add: h5_def)
  from is_book_bound[OF bk1] len15 fresh5
  have "set fpr \<inter> {book, a, b} = {}" by auto
  with reach_revert[OF rv5'] rbook have sep2: "reach h5 revert \<inter> reach h5 book = {}" by blast
  have fresh: "\<forall>x\<in>set fpr. length h \<le> x"
  proof
    fix x assume "x \<in> set fpr"
    with fresh5 have "length h4 \<le> x" by simp
    moreover from fr1 have "length h \<le> length h1" by (simp add: unchanged_except_def)
    ultimately show "length h \<le> x" using len15 by simp
  qed
  show "\<exists>h' states book revert a b bk sts rs rvb rva fpr.
        main_store h initial (JList items) final k = Inr (h', states, book, revert)
      \<and> unchanged_except {} h h'
      \<and> is_book h' initial bk0 a0 b0
      \<and> main_apply_updates bk0 (JList items) final k = Inr (sts, bk)
      \<and> is_book h' book bk a b
      \<and> reach h' book \<inter> reach h' initial = {}
      \<and> obj_at h' states = Some (OList (map VRef rs))
      \<and> list_all2 (\<lambda>r st. \<exists>fp. is_levels h' r st fp \<and> (\<forall>x\<in>set fp. length h \<le> x)) rs sts
      \<and> (\<forall>r\<in>set rs. reach h' r \<inter> reach h' book = {})
      \<and> generate_revert_update bk bk0 ''0.00000000''
          = Inr (JObj [(''data'', JObj [(''e'', JStr ''depthUpdate''),
                                        (''b'', JList (map level_json rvb)),
                                        (''a'', JList (map level_json rva))])])
      \<and> is_revert h' revert rvb rva fpr \<and> (\<forall>x\<in>set fpr. length h \<le> x)
      \<and> reach h' revert \<inter> reach h' book = {}"
    using run fr5 init5 pure bk5 sep0 s5 ps5' sep1 rev rv5' fresh sep2 by blast
qed

theorem main_store_frame_witness:
  "\<exists>h' states book revert.
     main_store [dict_obj [(''100.5'', ''2'')], dict_obj [(''100.0'', ''3'')],
                 ODict [(''ask'', VRef 0), (''bid'', VRef 1)]] 2
       (JList [JObj [(''b'', JList [JList [JStr ''100.0'', JStr ''0'']]),
                     (''a'', JList [JList [JStr ''100.5'', JStr ''5''],
                                    JList [JStr ''101.0'', JStr ''1'']])]]) False 1
       = Inr (h', states, book, revert)
     \<and> unchanged_except {} [dict_obj [(''100.5'', ''2'')], dict_obj [(''100.0'', ''3'')],
                               ODict [(''ask'', VRef 0), (''bid'', VRef 1)]] h'
     \<and> is_book h' 2 \<lparr>ask = [(''100.5'', ''2'')], bid = [(''100.0'', ''3'')]\<rparr> 0 1
     \<and> reach h' revert \<inter> reach h' book = {}"
proof -
  let ?h = "[dict_obj [(''100.5'', ''2'')], dict_obj [(''100.0'', ''3'')],
             ODict [(''ask'', VRef 0), (''bid'', VRef 1)]]"
  let ?bk0 = "\<lparr>ask = [(''100.5'', ''2'')], bid = [(''100.0'', ''3'')]\<rparr>"
  let ?items = "[JObj [(''b'', JList [JList [JStr ''100.0'', JStr ''0'']]),
                     (''a'', JList [JList [JStr ''100.5'', JStr ''5''],
                                    JList [JStr ''101.0'', JStr ''1'']])]]"
  have init: "is_book ?h 2 ?bk0 0 1"
    by (simp add: is_book_def is_side_def obj_at_def)
  have ok: "book_ok ?bk0"
    by (simp add: book_ok_def side_ok_def level_ok_def Decimal_literals)
  have v: "list_all valid_update ?items"
    by (simp add: valid_update_def depth_event_def dict_get_def parse_levels_def parse_level_def
        level_ok_def Decimal_literals Let_def)
  from main_store_frame[of ?h 2 ?bk0 0 1 ?items False 1] init ok v
  show ?thesis by (simp only: simp_thms) blast
qed

end
